theory Spec2Isabelle
  imports Main
begin

section \<open>The add-existing-repository dialog\<close>

text \<open>
  The component \<open>AddExistingRepository\<close> keeps a React state (the candidate path and the
  tri-state validity flag, \<open>None\<close> standing for \<open>null\<close>, the pending state) and the
  private counter \<open>checkGitRepositoryToken\<close>. The counter is a JavaScript number that
  starts at 0 and only ever grows by one; it is modelled as a natural number, which is
  exact for the first \<open>2 ^ 53\<close> path checks of one dialog.

  A promise that the component awaits either fulfils with a value or rejects.
\<close>

datatype 'a settled = Fulfilled 'a | Rejected

record IAddExistingRepositoryState =
  path :: string
  isGitRepository :: "bool option"

record AddExistingRepository =
  state :: IAddExistingRepositoryState
  checkGitRepositoryToken :: nat

text \<open>
  A call of the external predicate \<open>isGitRepository\<close> that has been started: the
  argument it was given and the token that the awaiting invocation captured.
\<close>

record PathCheck =
  checkToken :: nat
  checkPath :: string

text \<open>The constructor: an empty path, the flag \<open>false\<close>, the counter 0.\<close>

definition constructor :: AddExistingRepository where
  "constructor =
     \<lparr> state = \<lparr> path = [], isGitRepository = Some False \<rparr>,
       checkGitRepositoryToken = 0 \<rparr>"

text \<open>
  \<open>untildify\<close> is a function of an external package; every operation that uses it takes
  it as its first argument.
\<close>

definition resolvedPath :: "(string \<Rightarrow> string) \<Rightarrow> string \<Rightarrow> string" where
  "resolvedPath untildify p = untildify p"

text \<open>
  \<open>checkIfPathIsRepository\<close> is an async function. Its body up to the \<open>await\<close> runs
  inside the caller: it stores the path with the flag \<open>null\<close>, increments the counter,
  keeps the new value as its token and calls the predicate on the resolved path. The
  model returns the component and the call that is now in flight.
\<close>

definition checkIfPathIsRepository ::
  "(string \<Rightarrow> string) \<Rightarrow> string \<Rightarrow> AddExistingRepository \<Rightarrow> AddExistingRepository \<times> PathCheck"
where
  "checkIfPathIsRepository untildify p c =
     (let c1 = c \<lparr> state := \<lparr> path = p, isGitRepository = None \<rparr> \<rparr>;
          token = checkGitRepositoryToken c1 + 1;
          c2 = c1 \<lparr> checkGitRepositoryToken := token \<rparr>
      in (c2, \<lparr> checkToken = token, checkPath = resolvedPath untildify p \<rparr>))"

text \<open>
  The rest of the body runs when the predicate's promise settles. A rejection is thrown
  at the \<open>await\<close>, so nothing more of the body runs (the promise of the async function
  rejects, and no caller looks at it). A result that arrives for a token other than the
  current one is dropped; otherwise the flag is set, the path being stored as it is.
\<close>

definition checkIfPathIsRepository_resume ::
  "nat \<Rightarrow> bool settled \<Rightarrow> AddExistingRepository \<Rightarrow> AddExistingRepository"
where
  "checkIfPathIsRepository_resume token r c =
     (case r of
        Rejected \<Rightarrow> c
      | Fulfilled isRepo \<Rightarrow>
          if token \<noteq> checkGitRepositoryToken c then c
          else c \<lparr> state := \<lparr> path = path (state c), isGitRepository = Some isRepo \<rparr> \<rparr>)"

text \<open>The text box's change handler passes the new value on.\<close>

definition onPathChanged ::
  "(string \<Rightarrow> string) \<Rightarrow> string \<Rightarrow> AddExistingRepository \<Rightarrow> AddExistingRepository \<times> PathCheck"
where
  "onPathChanged untildify v c = checkIfPathIsRepository untildify v c"

text \<open>
  \<open>showFilePicker\<close> receives what the native picker returned: \<open>None\<close> for nothing, or
  the list of chosen directories. Nothing chosen returns at once. An empty list is not
  falsy in JavaScript: \<open>directory[0]\<close> is then \<open>undefined\<close>, which \<open>untildify\<close>
  refuses with a TypeError; the model reports that as the error.
\<close>

datatype error = TypeError

definition showFilePicker ::
  "(string \<Rightarrow> string) \<Rightarrow> string list option \<Rightarrow> AddExistingRepository \<Rightarrow>
     error + AddExistingRepository \<times> PathCheck list"
where
  "showFilePicker untildify directory c =
     (case directory of
        None \<Rightarrow> Inr (c, [])
      | Some [] \<Rightarrow> Inl TypeError
      | Some (p # _) \<Rightarrow>
          (case checkIfPathIsRepository untildify p c of (c', k) \<Rightarrow> Inr (c', [k])))"

text \<open>What \<open>render\<close> and \<open>renderWarning\<close> show of the state.\<close>

record View =
  textBoxValue :: string
  warningShown :: bool
  submitDisabled :: bool

definition renderWarning :: "AddExistingRepository \<Rightarrow> bool" where
  "renderWarning c =
     (let isRepo = isGitRepository (state c)
      in if length (path (state c)) = 0 \<or> isRepo = Some True then False else True)"

definition render :: "AddExistingRepository \<Rightarrow> View" where
  "render c =
     (let disabled = (length (path (state c)) = 0 \<or> isGitRepository (state c) = None)
      in \<lparr> textBoxValue = path (state c),
           warningShown = renderWarning c,
           submitDisabled = disabled \<rparr>)"

text \<open>
  \<open>addRepository\<close> talks to the dispatcher and to the \<open>onDismissed\<close> callback. The model
  lists the calls it makes, in order, given how the dispatcher's promise settles; the
  fulfilled value may be \<open>null\<close> (\<open>None\<close>), which the code tests for.
\<close>

datatype 'r action =
    AddRepositories "string list"
  | SelectRepository 'r
  | OnDismissed

definition addRepository ::
  "(string \<Rightarrow> string) \<Rightarrow> AddExistingRepository \<Rightarrow> 'r list option settled \<Rightarrow> 'r action list"
where
  "addRepository untildify c response =
     AddRepositories [resolvedPath untildify (path (state c))] #
     (case response of
        Rejected \<Rightarrow> []
      | Fulfilled repositories \<Rightarrow>
          (case repositories of
             Some (repository # _) \<Rightarrow> [SelectRepository repository]
           | _ \<Rightarrow> []) @ [OnDismissed])"

subsection \<open>The dialog together with its path checks\<close>

text \<open>
  The dialog as it runs: the component, the predicate calls that have not settled yet,
  and the record of those that have, each with its outcome (most recent first).
\<close>

record Dialog =
  component :: AddExistingRepository
  inFlight :: "PathCheck list"
  settledChecks :: "(PathCheck \<times> bool settled) list"

datatype event =
    PathChanged string
  | FilePicked "string list option"
  | CheckSettled nat "bool settled"

definition mount :: Dialog where
  "mount = \<lparr> component = constructor, inFlight = [], settledChecks = [] \<rparr>"

definition tokensInFlight :: "Dialog \<Rightarrow> nat list" where
  "tokensInFlight d = map checkToken (inFlight d)"

text \<open>
  One event. \<open>None\<close> means the event cannot happen there (a check that is not in flight
  cannot settle) or the handler failed (the picker's empty list).
\<close>

definition step :: "(string \<Rightarrow> string) \<Rightarrow> Dialog \<Rightarrow> event \<Rightarrow> Dialog option" where
  "step untildify d e =
     (case e of
        PathChanged v \<Rightarrow>
          (case onPathChanged untildify v (component d) of
             (c', k) \<Rightarrow> Some (d \<lparr> component := c', inFlight := k # inFlight d \<rparr>))
      | FilePicked directory \<Rightarrow>
          (case showFilePicker untildify directory (component d) of
             Inl _ \<Rightarrow> None
           | Inr (c', ks) \<Rightarrow> Some (d \<lparr> component := c', inFlight := ks @ inFlight d \<rparr>))
      | CheckSettled token r \<Rightarrow>
          (case find (\<lambda>k. checkToken k = token) (inFlight d) of
             None \<Rightarrow> None
           | Some k \<Rightarrow>
               Some (d \<lparr> component := checkIfPathIsRepository_resume token r (component d),
                         inFlight := filter (\<lambda>k. checkToken k \<noteq> token) (inFlight d),
                         settledChecks := (k, r) # settledChecks d \<rparr>)))"

fun run :: "(string \<Rightarrow> string) \<Rightarrow> Dialog \<Rightarrow> event list \<Rightarrow> Dialog option" where
  "run untildify d [] = Some d"
| "run untildify d (e # es) =
     (case step untildify d e of None \<Rightarrow> None | Some d' \<Rightarrow> run untildify d' es)"

text \<open>
  The outcome delivered for a token, if its check has settled, and the flag that the
  most recently issued check calls for: pending until it has been answered.
\<close>

definition outcomeOf :: "Dialog \<Rightarrow> nat \<Rightarrow> bool settled option" where
  "outcomeOf d token = map_of (map (\<lambda>(k, r). (checkToken k, r)) (settledChecks d)) token"

definition latestFlag :: "Dialog \<Rightarrow> bool option" where
  "latestFlag d =
     (case outcomeOf d (checkGitRepositoryToken (component d)) of
        Some (Fulfilled isRepo) \<Rightarrow> Some isRepo
      | _ \<Rightarrow> None)"

subsection \<open>Notions used in the proofs about the dialog\<close>

text \<open>
  The two ways in which an event changes the dialog: a new check is issued, or a check
  in flight settles.
\<close>

definition issue :: "(string \<Rightarrow> string) \<Rightarrow> string \<Rightarrow> Dialog \<Rightarrow> Dialog" where
  "issue u p d =
     d \<lparr> component := fst (checkIfPathIsRepository u p (component d)),
         inFlight := snd (checkIfPathIsRepository u p (component d)) # inFlight d \<rparr>"

definition settle :: "nat \<Rightarrow> bool settled \<Rightarrow> PathCheck \<Rightarrow> Dialog \<Rightarrow> Dialog" where
  "settle t r k d =
     d \<lparr> component := checkIfPathIsRepository_resume t r (component d),
         inFlight := filter (\<lambda>k. checkToken k \<noteq> t) (inFlight d),
         settledChecks := (k, r) # settledChecks d \<rparr>"

text \<open>Every check issued so far, whether still in flight or settled.\<close>

definition allChecks :: "Dialog \<Rightarrow> PathCheck list" where
  "allChecks d = inFlight d @ map fst (settledChecks d)"

text \<open>No check carries a token beyond the counter.\<close>

definition bounded :: "Dialog \<Rightarrow> bool" where
  "bounded d = (\<forall>k \<in> set (allChecks d). checkToken k \<le> checkGitRepositoryToken (component d))"

text \<open>
  The state agrees with the checks: before the first check it is the constructor's;
  afterwards the flag is the one the latest check calls for, the latest check is in
  flight exactly when it has no outcome yet, and it was issued for the stored path.
\<close>

definition inSync :: "(string \<Rightarrow> string) \<Rightarrow> Dialog \<Rightarrow> bool" where
  "inSync u d =
     (let cur = checkGitRepositoryToken (component d) in
      (cur = 0 \<longrightarrow>
         state (component d) = \<lparr> path = [], isGitRepository = Some False \<rparr> \<and> inFlight d = []) \<and>
      (0 < cur \<longrightarrow> isGitRepository (state (component d)) = latestFlag d) \<and>
      (0 < cur \<longrightarrow> (cur \<in> set (tokensInFlight d)) = (outcomeOf d cur = None)) \<and>
      (\<forall>k \<in> set (allChecks d). checkToken k = cur \<longrightarrow> checkPath k = u (path (state (component d)))))"

section \<open>The author input\<close>

subsection \<open>The editor's document\<close>

text \<open>
  The author input works on a document of the embedded editor (CodeMirror), through the
  editor's own interface. What the component uses of it is modelled here after the
  editor's behaviour: a document is a non-empty sequence of lines (the first line
  number is 0, the line separator counts as one character), together with the ranges of
  the text markers that are in it. A position is a line number and a character offset;
  an index counts characters from the start of the document. Characters are the
  8-bit characters of \<open>string\<close>.
\<close>

record Position =
  line :: nat
  ch :: nat

text \<open>The \<open>{from, to}\<close> object that a marker's \<open>find()\<close> returns.\<close>

record MarkerRange =
  from_pos :: Position
  to_pos :: Position

record Doc =
  firstLine :: string
  moreLines :: "string list"
  marks :: "MarkerRange list"

definition docLines :: "Doc \<Rightarrow> string list" where
  "docLines doc = firstLine doc # moreLines doc"

definition lastLine :: "Doc \<Rightarrow> nat" where
  "lastLine doc = length (docLines doc) - 1"

text \<open>\<open>doc.getLine(n)\<close>: the text of line \<open>n\<close>, or \<open>undefined\<close> (\<open>None\<close>) when there is none.\<close>

definition getLine :: "Doc \<Rightarrow> nat \<Rightarrow> string option" where
  "getLine doc n = (if n < length (docLines doc) then Some (docLines doc ! n) else None)"

text \<open>
  The editor clips every position it is given: a line past the last one becomes the
  end of the document, an offset past the end of its line becomes the end of the line.
\<close>

definition clipPos :: "Doc \<Rightarrow> Position \<Rightarrow> Position" where
  "clipPos doc pos =
     (if line pos > lastLine doc
      then \<lparr> line = lastLine doc, ch = length (docLines doc ! lastLine doc) \<rparr>
      else let linelen = length (docLines doc ! line pos)
           in if ch pos > linelen then \<lparr> line = line pos, ch = linelen \<rparr> else pos)"

text \<open>The index at which line \<open>n\<close> starts: the lengths of the lines before it, each with its separator.\<close>

definition lineStart :: "string list \<Rightarrow> nat \<Rightarrow> int" where
  "lineStart ls n = sum_list (map (\<lambda>l. int (length l) + 1) (take n ls))"

definition indexFromPos :: "Doc \<Rightarrow> Position \<Rightarrow> int" where
  "indexFromPos doc coords =
     (let c = clipPos doc coords in int (ch c) + lineStart (docLines doc) (line c))"

text \<open>
  \<open>doc.posFromIndex(off)\<close> walks the lines, taking each line's size off the offset,
  until the offset falls inside a line; a negative offset gives offset 0 of the first
  line, and an offset past the last line gives the end of the document.
\<close>

fun posFromIndex_iter :: "string list \<Rightarrow> int \<Rightarrow> nat \<Rightarrow> Position option" where
  "posFromIndex_iter [] off lineNo = None"
| "posFromIndex_iter (l # ls) off lineNo =
     (let sz = int (length l) + 1
      in if sz > off then Some \<lparr> line = lineNo, ch = nat off \<rparr>
         else posFromIndex_iter ls (off - sz) (Suc lineNo))"

definition posFromIndex :: "Doc \<Rightarrow> int \<Rightarrow> Position" where
  "posFromIndex doc off =
     (case posFromIndex_iter (docLines doc) off 0 of
        Some pos \<Rightarrow> pos
      | None \<Rightarrow> \<lparr> line = lastLine doc, ch = length (docLines doc ! lastLine doc) \<rparr>)"

text \<open>\<open>doc.findMarksAt(pos)\<close>: the markers whose range, ends included, holds the position.\<close>

definition findMarksAt :: "Doc \<Rightarrow> Position \<Rightarrow> MarkerRange list" where
  "findMarksAt doc pos =
     filter (\<lambda>m. indexFromPos doc (from_pos m) \<le> indexFromPos doc pos \<and>
                 indexFromPos doc pos \<le> indexFromPos doc (to_pos m)) (marks doc)"

text \<open>
  \<open>doc.getRange(from, to)\<close>: the text between two positions, its lines joined by the
  line separator.
\<close>

definition getBetween :: "Doc \<Rightarrow> Position \<Rightarrow> Position \<Rightarrow> string list" where
  "getBetween doc start stop =
     map (\<lambda>n. let text = docLines doc ! n;
                   text = (if n = line stop then take (ch stop) text else text);
                   text = (if n = line start then drop (ch start) text else text)
               in text)
         [line start ..< Suc (line stop)]"

fun joinLines :: "string list \<Rightarrow> string" where
  "joinLines [] = []"
| "joinLines [l] = l"
| "joinLines (l # ls) = l @ CHR 0x0A # joinLines ls"

definition getRange :: "Doc \<Rightarrow> Position \<Rightarrow> Position \<Rightarrow> string" where
  "getRange doc from to = joinLines (getBetween doc (clipPos doc from) (clipPos doc to))"

text \<open>
  The selection of the document: the primary range and any further ones.
  \<open>doc.getCursor()\<close> is the head of the primary range, and something is selected when
  some range is not empty.
\<close>

record SelectionRange =
  anchor :: Position
  head :: Position

record Selection =
  primary :: SelectionRange
  others :: "SelectionRange list"

definition somethingSelected :: "Selection \<Rightarrow> bool" where
  "somethingSelected sel = list_ex (\<lambda>r. anchor r \<noteq> head r) (primary sel # others sel)"

definition getCursor :: "Selection \<Rightarrow> Position" where
  "getCursor sel = head (primary sel)"

text \<open>
  JavaScript's whitespace class on one character, and \<open>charAt\<close>, which gives the
  empty string past the end of the string.
\<close>

definition isSpace :: "char \<Rightarrow> bool" where
  "isSpace c = (c \<in> {CHR 0x09, CHR 0x0A, CHR 0x0B, CHR 0x0C, CHR 0x0D, CHR 0x20, CHR 0xA0})"

definition charAt :: "string \<Rightarrow> nat \<Rightarrow> string" where
  "charAt s i = (if i < length s then [s ! i] else [])"

subsection \<open>The functions of the author input\<close>

definition previousPosition :: "Doc \<Rightarrow> Position \<Rightarrow> Position" where
  "previousPosition doc pos = posFromIndex doc (indexFromPos doc pos - 1)"

definition nextPosition :: "Doc \<Rightarrow> Position \<Rightarrow> Position" where
  "nextPosition doc pos = posFromIndex doc (indexFromPos doc pos + 1)"

text \<open>The loop of \<open>posIsInsideMarkedText\<close> over the markers found, returning at the first hit.\<close>

fun insideAny :: "Doc \<Rightarrow> int \<Rightarrow> MarkerRange list \<Rightarrow> bool" where
  "insideAny doc ix [] = False"
| "insideAny doc ix (mark # rest) =
     (let from = indexFromPos doc (from_pos mark);
          to = indexFromPos doc (to_pos mark)
      in if ix > from \<and> ix < to then True else insideAny doc ix rest)"

definition posIsInsideMarkedText :: "Doc \<Rightarrow> Position \<Rightarrow> bool" where
  "posIsInsideMarkedText doc pos =
     (let marks = findMarksAt doc pos;
          ix = indexFromPos doc pos
      in insideAny doc ix marks)"

text \<open>
  \<open>isMarkOrWhitespace\<close> reads the line of the position; on a line that does not exist
  \<open>getLine\<close> gives \<open>undefined\<close> and \<open>charAt\<close> on it raises a TypeError.
\<close>

definition isMarkOrWhitespace :: "Doc \<Rightarrow> Position \<Rightarrow> error + bool" where
  "isMarkOrWhitespace doc pos =
     (case getLine doc (line pos) of
        None \<Rightarrow> Inl TypeError
      | Some l \<Rightarrow>
          if list_ex isSpace (charAt l (ch pos)) then Inr True
          else Inr (posIsInsideMarkedText doc pos))"

text \<open>
  The two \<open>while\<close> loops of \<open>getHintRangeFromCursor\<close>, the first moving \<open>from\<close> back and
  the second moving \<open>to\<close> forward. Nothing bounds them, so each is a partial function:
  \<open>None\<close> is a loop that runs forever.
\<close>

partial_function (option) extendFrom :: "Doc \<Rightarrow> Position \<Rightarrow> (error + Position) option" where
  "extendFrom doc from =
     (case isMarkOrWhitespace doc (previousPosition doc from) of
        Inl e \<Rightarrow> Some (Inl e)
      | Inr stop \<Rightarrow>
          if \<not> stop then extendFrom doc (previousPosition doc from) else Some (Inr from))"

partial_function (option) extendTo :: "Doc \<Rightarrow> Position \<Rightarrow> (error + Position) option" where
  "extendTo doc to =
     (case isMarkOrWhitespace doc (nextPosition doc to) of
        Inl e \<Rightarrow> Some (Inl e)
      | Inr stop \<Rightarrow>
          if \<not> stop then extendTo doc (nextPosition doc to) else Some (Inr to))"

declare extendFrom.simps [code]
declare extendTo.simps [code]

record HintRange =
  range_from :: Position
  range_to :: Position

definition getHintRangeFromCursor :: "Doc \<Rightarrow> Position \<Rightarrow> (error + HintRange) option" where
  "getHintRangeFromCursor doc cursor =
     (case extendFrom doc cursor of
        None \<Rightarrow> None
      | Some (Inl e) \<Rightarrow> Some (Inl e)
      | Some (Inr from) \<Rightarrow>
          (case extendTo doc cursor of
             None \<Rightarrow> None
           | Some (Inl e) \<Rightarrow> Some (Inl e)
           | Some (Inr to) \<Rightarrow> Some (Inr \<lparr> range_from = from, range_to = to \<rparr>)))"

subsection \<open>The component and its event handlers\<close>

text \<open>
  A text marker as the component holds it: what \<open>find()\<close> returns (\<open>None\<close> for
  \<open>undefined\<close>, the marker being no longer in the document) and its \<open>collapsed\<close>
  property, which is \<open>undefined\<close> until it is first set. The component keeps the flag
  \<open>hintActive\<close> and the two markers \<open>label\<close> and \<open>placeholder\<close>, each \<open>null\<close> before
  the editor is initialised.
\<close>

record ActualTextMarker =
  found :: "MarkerRange option"
  collapsed :: "bool option"

record AuthorInput =
  hintActive :: bool
  label :: "ActualTextMarker option"
  placeholder :: "ActualTextMarker option"

definition onStartCompletion :: "AuthorInput \<Rightarrow> AuthorInput" where
  "onStartCompletion c = c \<lparr> hintActive := True \<rparr>"

definition onEndCompletion :: "AuthorInput \<Rightarrow> AuthorInput" where
  "onEndCompletion c = c \<lparr> hintActive := False \<rparr>"

text \<open>
  The \<open>cursorActivity\<close> handler. It returns the component and whether it called
  \<open>changed()\<close> on the placeholder; reading \<open>to\<close> or \<open>from\<close> of an undefined range is
  a TypeError.
\<close>

definition onCursorActivity :: "Doc \<Rightarrow> AuthorInput \<Rightarrow> error + AuthorInput \<times> bool" where
  "onCursorActivity doc c =
     (case (label c, placeholder c) of
        (Some l, Some p) \<Rightarrow>
          (case (found l, found p) of
             (Some labelRange, Some placeholderRange) \<Rightarrow>
               (let collapse = (indexFromPos doc (to_pos labelRange)
                                  \<noteq> indexFromPos doc (from_pos placeholderRange))
                in if collapsed p \<noteq> Some collapse
                   then Inr (c \<lparr> placeholder := Some (p \<lparr> collapsed := Some collapse \<rparr>) \<rparr>, True)
                   else Inr (c, False))
           | _ \<Rightarrow> Inl TypeError)
      | _ \<Rightarrow> Inr (c, False))"

text \<open>The \<open>changes\<close> handler; its result says whether it called \<open>showHint()\<close>.\<close>

definition onChanges :: "AuthorInput \<Rightarrow> Doc \<Rightarrow> Selection \<Rightarrow> bool" where
  "onChanges c doc sel =
     (if \<not> hintActive c then
        if somethingSelected sel then False
        else
          let cursor = getCursor sel;
              previousPos = previousPosition doc cursor
          in if posIsInsideMarkedText doc previousPos then False
             else
               let char = getRange doc previousPos cursor
               in if char = ''@'' then True else False
      else False)"

subsection \<open>Notions used in the proofs about the author input\<close>

text \<open>A position of the document: on one of its lines and not past the end of that line.\<close>

definition validPos :: "Doc \<Rightarrow> Position \<Rightarrow> bool" where
  "validPos doc pos =
     (line pos < length (docLines doc) \<and> ch pos \<le> length (docLines doc ! line pos))"

text \<open>The index of the end of the document.\<close>

definition docEnd :: "Doc \<Rightarrow> int" where
  "docEnd doc = lineStart (docLines doc) (length (docLines doc)) - 1"

text \<open>
  What the scan looks for, said directly: the position holds a whitespace character,
  or it lies strictly inside the range of a marker. \<open>stopAt\<close> is either of them at the
  position of an index.
\<close>

definition whitespaceAt :: "Doc \<Rightarrow> Position \<Rightarrow> bool" where
  "whitespaceAt doc pos =
     (case getLine doc (line pos) of
        None \<Rightarrow> False
      | Some l \<Rightarrow> ch pos < length l \<and> isSpace (l ! ch pos))"

definition insideMark :: "Doc \<Rightarrow> Position \<Rightarrow> bool" where
  "insideMark doc pos =
     (\<exists>m \<in> set (marks doc).
        indexFromPos doc (from_pos m) < indexFromPos doc pos \<and>
        indexFromPos doc pos < indexFromPos doc (to_pos m))"

definition stopAt :: "Doc \<Rightarrow> int \<Rightarrow> bool" where
  "stopAt doc j = (whitespaceAt doc (posFromIndex doc j) \<or> insideMark doc (posFromIndex doc j))"

text \<open>
  Documents to evaluate on. The first three are documents of the component: the label
  \<open>Co-Authors\<close> with its marker, what was typed, and the placeholder with its marker.
  \<open>spacedDoc\<close> is what the editor holds once a space and an \<open>x\<close> have been typed
  and then, with the cursor moved back to the end of the label, an \<open>@\<close>. The last
  document has no marker and no whitespace.
\<close>

definition coAuthorsDoc :: Doc where
  "coAuthorsDoc =
     \<lparr> firstLine = ''Co-Authors @ab@username'', moreLines = [],
       marks = [\<lparr> from_pos = \<lparr> line = 0, ch = 0 \<rparr>, to_pos = \<lparr> line = 0, ch = 11 \<rparr> \<rparr>,
                \<lparr> from_pos = \<lparr> line = 0, ch = 14 \<rparr>, to_pos = \<lparr> line = 0, ch = 23 \<rparr> \<rparr>] \<rparr>"

definition typedDoc :: Doc where
  "typedDoc =
     \<lparr> firstLine = ''Co-Authors @@username'', moreLines = [],
       marks = [\<lparr> from_pos = \<lparr> line = 0, ch = 0 \<rparr>, to_pos = \<lparr> line = 0, ch = 11 \<rparr> \<rparr>,
                \<lparr> from_pos = \<lparr> line = 0, ch = 12 \<rparr>, to_pos = \<lparr> line = 0, ch = 21 \<rparr> \<rparr>] \<rparr>"

definition spacedDoc :: Doc where
  "spacedDoc =
     \<lparr> firstLine = ''Co-Authors @ x@username'', moreLines = [],
       marks = [\<lparr> from_pos = \<lparr> line = 0, ch = 0 \<rparr>, to_pos = \<lparr> line = 0, ch = 11 \<rparr> \<rparr>,
                \<lparr> from_pos = \<lparr> line = 0, ch = 14 \<rparr>, to_pos = \<lparr> line = 0, ch = 23 \<rparr> \<rparr>] \<rparr>"

definition plainDoc :: Doc where
  "plainDoc = \<lparr> firstLine = ''ab'', moreLines = [], marks = [] \<rparr>"

text \<open>The component over \<open>typedDoc\<close>, with both markers in the document and no completion active.\<close>

definition typedInput :: AuthorInput where
  "typedInput =
     \<lparr> hintActive = False,
       label = Some \<lparr> found = Some \<lparr> from_pos = \<lparr> line = 0, ch = 0 \<rparr>,
                                     to_pos = \<lparr> line = 0, ch = 11 \<rparr> \<rparr>,
                      collapsed = None \<rparr>,
       placeholder = Some \<lparr> found = Some \<lparr> from_pos = \<lparr> line = 0, ch = 12 \<rparr>,
                                           to_pos = \<lparr> line = 0, ch = 21 \<rparr> \<rparr>,
                            collapsed = None \<rparr> \<rparr>"

text \<open>
  The component over \<open>coAuthorsDoc\<close> and over \<open>spacedDoc\<close>, whose markers lie at the
  same places, with no completion active.
\<close>

definition coAuthorsInput :: AuthorInput where
  "coAuthorsInput =
     \<lparr> hintActive = False,
       label = Some \<lparr> found = Some \<lparr> from_pos = \<lparr> line = 0, ch = 0 \<rparr>,
                                     to_pos = \<lparr> line = 0, ch = 11 \<rparr> \<rparr>,
                      collapsed = None \<rparr>,
       placeholder = Some \<lparr> found = Some \<lparr> from_pos = \<lparr> line = 0, ch = 14 \<rparr>,
                                           to_pos = \<lparr> line = 0, ch = 23 \<rparr> \<rparr>,
                            collapsed = None \<rparr> \<rparr>"

section \<open>Verification of the dialog\<close>

subsection \<open>The effect of one event\<close>

lemma check_eq:
  "checkIfPathIsRepository u p c =
     (\<lparr> state = \<lparr> path = p, isGitRepository = None \<rparr>,
        checkGitRepositoryToken = Suc (checkGitRepositoryToken c) \<rparr>,
      \<lparr> checkToken = Suc (checkGitRepositoryToken c), checkPath = u p \<rparr>)"
  by (simp add: checkIfPathIsRepository_def resolvedPath_def Let_def)

lemma step_cases:
  assumes "step u d e = Some d'"
  obtains (same) "d' = d"
  | (issued) p where "d' = issue u p d"
  | (settled) t r k where "k \<in> set (inFlight d)" "checkToken k = t" "d' = settle t r k d"
proof (cases e)
  case (PathChanged v)
  with assms have "d' = issue u v d"
    by (simp add: step_def onPathChanged_def issue_def split: prod.splits)
  then show ?thesis by (rule issued)
next
  case (FilePicked dir)
  show ?thesis
  proof (cases dir)
    case None
    with assms FilePicked have "d' = d"
      by (simp add: step_def showFilePicker_def)
    then show ?thesis by (rule same)
  next
    case (Some ps)
    show ?thesis
    proof (cases ps)
      case Nil
      with assms FilePicked Some show ?thesis
        by (simp add: step_def showFilePicker_def)
    next
      case (Cons p qs)
      with assms FilePicked Some have "d' = issue u p d"
        by (simp add: step_def showFilePicker_def issue_def split: prod.splits)
      then show ?thesis by (rule issued)
    qed
  qed
next
  case (CheckSettled t r)
  with assms obtain k where k: "find (\<lambda>k. checkToken k = t) (inFlight d) = Some k"
    and d': "d' = settle t r k d"
    by (auto simp: step_def settle_def split: option.splits)
  from k have "k \<in> set (inFlight d)" "checkToken k = t"
    by (auto simp: find_Some_iff)
  then show ?thesis using d' by (rule settled)
qed

lemma issue_simps:
  "component (issue u p d) =
     \<lparr> state = \<lparr> path = p, isGitRepository = None \<rparr>,
       checkGitRepositoryToken = Suc (checkGitRepositoryToken (component d)) \<rparr>"
  "inFlight (issue u p d) =
     \<lparr> checkToken = Suc (checkGitRepositoryToken (component d)), checkPath = u p \<rparr> # inFlight d"
  "settledChecks (issue u p d) = settledChecks d"
  by (simp_all add: issue_def check_eq)

lemma settle_simps:
  "component (settle t r k d) = checkIfPathIsRepository_resume t r (component d)"
  "inFlight (settle t r k d) = filter (\<lambda>k. checkToken k \<noteq> t) (inFlight d)"
  "settledChecks (settle t r k d) = (k, r) # settledChecks d"
  by (simp_all add: settle_def)

lemma resume_token:
  "checkGitRepositoryToken (checkIfPathIsRepository_resume t r c) = checkGitRepositoryToken c"
  by (simp add: checkIfPathIsRepository_resume_def split: settled.splits)

lemma resume_path:
  "path (state (checkIfPathIsRepository_resume t r c)) = path (state c)"
  by (simp add: checkIfPathIsRepository_resume_def split: settled.splits)

lemma resume_flag:
  "isGitRepository (state (checkIfPathIsRepository_resume t r c)) =
     (case r of
        Fulfilled b \<Rightarrow> if t = checkGitRepositoryToken c then Some b else isGitRepository (state c)
      | Rejected \<Rightarrow> isGitRepository (state c))"
  by (simp add: checkIfPathIsRepository_resume_def split: settled.splits)

lemma resume_stale:
  "t \<noteq> checkGitRepositoryToken c \<Longrightarrow> checkIfPathIsRepository_resume t r c = c"
  by (simp add: checkIfPathIsRepository_resume_def split: settled.splits)

lemma outcomeOf_issue: "outcomeOf (issue u p d) t = outcomeOf d t"
  by (simp add: outcomeOf_def issue_simps)

lemma outcomeOf_settle:
  "outcomeOf (settle t r k d) t' = (if t' = checkToken k then Some r else outcomeOf d t')"
  by (simp add: outcomeOf_def settle_simps)

lemma outcomeOf_None_iff:
  "(outcomeOf d t = None) = (\<forall>x \<in> set (settledChecks d). checkToken (fst x) \<noteq> t)"
proof -
  have "(map_of (map (\<lambda>(k, r). (checkToken k, r)) xs) t = None) =
          (\<forall>x \<in> set xs. checkToken (fst x) \<noteq> t)" for xs :: "(PathCheck \<times> bool settled) list"
    by (induction xs) (auto split: prod.splits)
  then show ?thesis by (simp add: outcomeOf_def)
qed

subsection \<open>What every run preserves\<close>

lemma bounded_issue: "bounded d \<Longrightarrow> bounded (issue u p d)"
  unfolding bounded_def allChecks_def issue_simps
  by (simp add: ball_Un) (blast intro: le_SucI)

lemma bounded_settle: "bounded d \<Longrightarrow> k \<in> set (inFlight d) \<Longrightarrow> bounded (settle t r k d)"
  by (auto simp: bounded_def allChecks_def settle_simps resume_token)

lemma bounded_step: "bounded d \<Longrightarrow> step u d e = Some d' \<Longrightarrow> bounded d'"
  by (erule step_cases) (auto intro: bounded_issue bounded_settle)

lemma bounded_settled:
  assumes "bounded d" "x \<in> set (settledChecks d)"
  shows "checkToken (fst x) \<le> checkGitRepositoryToken (component d)"
proof -
  from assms(2) have "fst x \<in> set (allChecks d)" by (simp add: allChecks_def)
  with assms(1) show ?thesis unfolding bounded_def by (rule bspec)
qed

lemma bounded_fresh:
  assumes "bounded d"
  shows "outcomeOf d (Suc (checkGitRepositoryToken (component d))) = None"
  unfolding outcomeOf_None_iff
proof
  fix x assume "x \<in> set (settledChecks d)"
  with assms have "checkToken (fst x) \<le> checkGitRepositoryToken (component d)"
    by (rule bounded_settled)
  then show "checkToken (fst x) \<noteq> Suc (checkGitRepositoryToken (component d))" by simp
qed

lemma inSync_issue:
  assumes "bounded d"
  shows "inSync u (issue u p d)"
proof -
  let ?n = "Suc (checkGitRepositoryToken (component d))"
  have fresh: "outcomeOf d ?n = None" using assms by (rule bounded_fresh)
  have old: "\<forall>k \<in> set (allChecks d). checkToken k \<noteq> ?n"
  proof
    fix k assume "k \<in> set (allChecks d)"
    with assms have "checkToken k \<le> checkGitRepositoryToken (component d)"
      unfolding bounded_def by (rule bspec)
    then show "checkToken k \<noteq> ?n" by simp
  qed
  have 1: "isGitRepository (state (component (issue u p d))) = latestFlag (issue u p d)"
    by (simp add: latestFlag_def outcomeOf_issue issue_simps fresh)
  have 2: "(?n \<in> set (tokensInFlight (issue u p d))) = (outcomeOf (issue u p d) ?n = None)"
    by (simp add: tokensInFlight_def outcomeOf_issue issue_simps fresh)
  have 3: "\<forall>k \<in> set (allChecks (issue u p d)). checkToken k = ?n \<longrightarrow> checkPath k = u p"
    using old by (simp add: allChecks_def issue_simps)
  show ?thesis
    unfolding inSync_def Let_def using 1 2 3 by (simp add: issue_simps)
qed

lemma tokensInFlight_settle:
  "(t' \<in> set (tokensInFlight (settle t r k d))) = (t' \<noteq> t \<and> t' \<in> set (tokensInFlight d))"
  by (auto simp: tokensInFlight_def settle_simps)

lemma allChecks_settle:
  assumes "k \<in> set (inFlight d)" "k' \<in> set (allChecks (settle t r k d))"
  shows "k' \<in> set (allChecks d)"
  using assms by (auto simp: allChecks_def settle_simps)

lemma inSync_settle:
  assumes sync: "inSync u d" and k: "k \<in> set (inFlight d)" "checkToken k = t"
  shows "inSync u (settle t r k d)"
proof -
  let ?cur = "checkGitRepositoryToken (component d)"
  let ?d' = "settle t r k d"
  from k(1) have nonempty: "inFlight d \<noteq> []" by auto
  with sync have pos: "0 < ?cur" unfolding inSync_def Let_def by auto
  from sync pos have flag: "isGitRepository (state (component d)) = latestFlag d"
    and fl: "(?cur \<in> set (tokensInFlight d)) = (outcomeOf d ?cur = None)"
    and pth: "\<forall>k \<in> set (allChecks d). checkToken k = ?cur \<longrightarrow>
                checkPath k = u (path (state (component d)))"
    unfolding inSync_def Let_def by simp_all
  from k have tin: "t \<in> set (tokensInFlight d)" by (auto simp: tokensInFlight_def)
  have cur': "checkGitRepositoryToken (component ?d') = ?cur"
    by (simp add: settle_simps resume_token)
  have 1: "isGitRepository (state (component ?d')) = latestFlag ?d'"
  proof (cases "t = ?cur")
    case True
    with tin fl have "outcomeOf d ?cur = None" by simp
    then have "latestFlag d = None" by (simp add: latestFlag_def)
    with flag True k(2) show ?thesis
      by (simp add: latestFlag_def outcomeOf_settle settle_simps resume_flag resume_token
            split: settled.splits)
  next
    case False
    with flag k(2) show ?thesis
      by (simp add: latestFlag_def outcomeOf_settle settle_simps resume_flag resume_token
            split: settled.splits)
  qed
  have 2: "(?cur \<in> set (tokensInFlight ?d')) = (outcomeOf ?d' ?cur = None)"
    using fl k(2) by (simp add: tokensInFlight_settle outcomeOf_settle)
  have 3: "\<forall>k' \<in> set (allChecks ?d'). checkToken k' = ?cur \<longrightarrow>
             checkPath k' = u (path (state (component ?d')))"
  proof (intro ballI impI)
    fix k' assume "k' \<in> set (allChecks ?d')" and c: "checkToken k' = ?cur"
    with k(1) have "k' \<in> set (allChecks d)" by (auto dest: allChecks_settle)
    with pth c show "checkPath k' = u (path (state (component ?d')))"
      by (simp add: settle_simps resume_path)
  qed
  show ?thesis
    unfolding inSync_def Let_def cur' using pos 1 2 3 by simp
qed

lemma inSync_step:
  assumes "bounded d" "inSync u d" "step u d e = Some d'"
  shows "inSync u d'"
  using assms(3)
proof (cases rule: step_cases)
  case same
  with assms(2) show ?thesis by simp
next
  case (issued p)
  with assms(1) show ?thesis by (simp add: inSync_issue)
next
  case (settled t r k)
  with assms(2) show ?thesis by (simp add: inSync_settle)
qed

lemma inv_mount: "bounded mount \<and> inSync u mount"
  by (simp add: bounded_def inSync_def allChecks_def mount_def constructor_def)

lemma inv_run:
  "bounded d \<and> inSync u d \<Longrightarrow> run u d es = Some d' \<Longrightarrow> bounded d' \<and> inSync u d'"
proof (induction es arbitrary: d)
  case Nil
  then show ?case by simp
next
  case (Cons e es)
  from Cons.prems(2) obtain d1 where s: "step u d e = Some d1" and r: "run u d1 es = Some d'"
    by (auto split: option.splits)
  from Cons.prems(1) s have "bounded d1 \<and> inSync u d1"
    by (auto intro: bounded_step inSync_step)
  then show ?case using r by (rule Cons.IH)
qed

lemma reachable_inv:
  assumes "run u mount es = Some d"
  shows "bounded d" "inSync u d"
  using inv_run [OF inv_mount assms] by simp_all

subsection \<open>The claims about the dialog\<close>

text \<open>
  Claim C1. Every invocation of \<open>checkIfPathIsRepository\<close> strictly increases the
  request token (and takes the new value as its own token); the completion of a check
  whose token is not the current one leaves the component unchanged; and so, in every
  state that a sequence of path changes, picker results and settling checks leads to,
  the flag is the one the most recently issued check calls for (its answer, or pending
  while there is none), and that check was issued for the stored path.
\<close>

theorem stale_checks_discarded:
  assumes "run untildify mount es = Some d"
  shows
    "(\<forall>p c. checkGitRepositoryToken c
              < checkGitRepositoryToken (fst (checkIfPathIsRepository untildify p c)) \<and>
            checkToken (snd (checkIfPathIsRepository untildify p c))
              = checkGitRepositoryToken (fst (checkIfPathIsRepository untildify p c))) \<and>
     (\<forall>token r c. token \<noteq> checkGitRepositoryToken c \<longrightarrow>
        checkIfPathIsRepository_resume token r c = c) \<and>
     (0 < checkGitRepositoryToken (component d) \<longrightarrow>
        isGitRepository (state (component d)) = latestFlag d \<and>
        (\<forall>k \<in> set (allChecks d). checkToken k = checkGitRepositoryToken (component d) \<longrightarrow>
           checkPath k = untildify (path (state (component d)))))"
proof (intro conjI allI impI)
  fix p c
  show "checkGitRepositoryToken c
          < checkGitRepositoryToken (fst (checkIfPathIsRepository untildify p c))"
    by (simp add: check_eq)
  show "checkToken (snd (checkIfPathIsRepository untildify p c))
          = checkGitRepositoryToken (fst (checkIfPathIsRepository untildify p c))"
    by (simp add: check_eq)
next
  fix token r and c :: AddExistingRepository
  assume "token \<noteq> checkGitRepositoryToken c"
  then show "checkIfPathIsRepository_resume token r c = c" by (rule resume_stale)
next
  assume pos: "0 < checkGitRepositoryToken (component d)"
  from assms have "inSync untildify d" by (rule reachable_inv)
  with pos show "isGitRepository (state (component d)) = latestFlag d"
    and "\<forall>k \<in> set (allChecks d). checkToken k = checkGitRepositoryToken (component d) \<longrightarrow>
           checkPath k = untildify (path (state (component d)))"
    unfolding inSync_def Let_def by simp_all
qed

lemma run_example:
  "run id mount [PathChanged ''a'', PathChanged ''b'', CheckSettled 2 (Fulfilled True),
     CheckSettled 1 (Fulfilled False)] =
   Some \<lparr> component = \<lparr> state = \<lparr> path = ''b'', isGitRepository = Some True \<rparr>,
                        checkGitRepositoryToken = 2 \<rparr>,
          inFlight = [],
          settledChecks = [(\<lparr> checkToken = 1, checkPath = ''a'' \<rparr>, Fulfilled False),
                           (\<lparr> checkToken = 2, checkPath = ''b'' \<rparr>, Fulfilled True)] \<rparr>"
  by code_simp

theorem stale_checks_discarded_witness:
  "run id mount [PathChanged ''a'', PathChanged ''b'', CheckSettled 2 (Fulfilled True),
     CheckSettled 1 (Fulfilled False)] \<noteq> None \<and>
   isGitRepository (state (component (the (run id mount
     [PathChanged ''a'', PathChanged ''b'', CheckSettled 2 (Fulfilled True),
      CheckSettled 1 (Fulfilled False)])))) = Some True \<and>
   latestFlag (the (run id mount
     [PathChanged ''a'', PathChanged ''b'', CheckSettled 2 (Fulfilled True),
      CheckSettled 1 (Fulfilled False)])) = Some True"
proof -
  let ?d = "\<lparr> component = \<lparr> state = \<lparr> path = ''b'', isGitRepository = Some True \<rparr>,
                        checkGitRepositoryToken = 2 \<rparr>,
          inFlight = [],
          settledChecks = [(\<lparr> checkToken = 1, checkPath = ''a'' \<rparr>, Fulfilled False),
                           (\<lparr> checkToken = 2, checkPath = ''b'' \<rparr>, Fulfilled True)] \<rparr>"
  note r = run_example
  have "0 < checkGitRepositoryToken (component ?d)" by simp
  with stale_checks_discarded [OF r]
  have "isGitRepository (state (component ?d)) = latestFlag ?d" by blast
  then show ?thesis unfolding r by simp
qed

text \<open>
  Claim C4. A path change, from the text box or from the file picker, stores the new
  path and sets the flag to pending in the handler itself, with the check for the
  resolved path started and still in flight.
\<close>

theorem path_change_sets_pending:
  "state (fst (onPathChanged untildify v c)) = \<lparr> path = v, isGitRepository = None \<rparr> \<and>
   snd (onPathChanged untildify v c)
     = \<lparr> checkToken = Suc (checkGitRepositoryToken c), checkPath = untildify v \<rparr> \<and>
   showFilePicker untildify (Some (v # vs)) c
     = Inr (fst (onPathChanged untildify v c), [snd (onPathChanged untildify v c)]) \<and>
   map_option (state \<circ> component) (step untildify d (PathChanged v))
     = Some \<lparr> path = v, isGitRepository = None \<rparr> \<and>
   map_option (state \<circ> component) (step untildify d (FilePicked (Some (v # vs))))
     = Some \<lparr> path = v, isGitRepository = None \<rparr> \<and>
   map_option inFlight (step untildify d (PathChanged v))
     = Some (\<lparr> checkToken = Suc (checkGitRepositoryToken (component d)),
               checkPath = untildify v \<rparr> # inFlight d) \<and>
   map_option inFlight (step untildify d (FilePicked (Some (v # vs))))
     = Some (\<lparr> checkToken = Suc (checkGitRepositoryToken (component d)),
               checkPath = untildify v \<rparr> # inFlight d)"
  by (simp add: onPathChanged_def showFilePicker_def step_def check_eq)

text \<open>
  Claim C7. When the picker returns nothing, \<open>showFilePicker\<close> leaves the dialog as it
  is and starts no check; when it returns directories, the first one becomes the path
  and a check of its resolved form is started.
\<close>

theorem showFilePicker_cancelled_or_chosen:
  "showFilePicker untildify None c = Inr (c, []) \<and>
   step untildify d (FilePicked None) = Some d \<and>
   showFilePicker untildify (Some (p # ps)) c
     = Inr (fst (checkIfPathIsRepository untildify p c),
            [snd (checkIfPathIsRepository untildify p c)]) \<and>
   path (state (fst (checkIfPathIsRepository untildify p c))) = p \<and>
   checkPath (snd (checkIfPathIsRepository untildify p c)) = resolvedPath untildify p"
  by (simp add: showFilePicker_def step_def check_eq resolvedPath_def)

text \<open>
  Claim C8. On submit the dispatcher is first given the one-element list holding the
  untildified current path; when it returns a non-empty list its first repository is
  selected; and whatever it returns, the dialog is dismissed last.
\<close>

theorem addRepository_calls:
  "addRepository untildify c (Fulfilled (Some (r # rs)))
     = [AddRepositories [untildify (path (state c))], SelectRepository r, OnDismissed] \<and>
   addRepository untildify c (Fulfilled (Some []))
     = [AddRepositories [untildify (path (state c))], OnDismissed] \<and>
   addRepository untildify c (Fulfilled None)
     = [AddRepositories [untildify (path (state c))], OnDismissed] \<and>
   hd (addRepository untildify c response) = AddRepositories [resolvedPath untildify (path (state c))]"
  by (simp add: addRepository_def resolvedPath_def)

text \<open>
  When the dispatcher's promise rejects instead, the exception leaves \<open>addRepository\<close>
  at the \<open>await\<close>: nothing is selected and the dialog is not dismissed.
\<close>

lemma addRepository_rejected:
  "addRepository untildify c Rejected = [AddRepositories [untildify (path (state c))]]"
  by (simp add: addRepository_def resolvedPath_def)

text \<open>
  Claim C10, as amended. At every render the submit button is disabled exactly when
  the stored path is empty or the flag is pending; hence it is disabled while the most
  recently issued check is in flight, and while the path is empty.
\<close>

theorem submit_disabled:
  assumes "run untildify mount es = Some d"
  shows
    "submitDisabled (render (component d))
       = (path (state (component d)) = [] \<or> isGitRepository (state (component d)) = None) \<and>
     (checkGitRepositoryToken (component d) \<in> set (tokensInFlight d) \<longrightarrow>
        submitDisabled (render (component d))) \<and>
     (path (state (component d)) = [] \<longrightarrow> submitDisabled (render (component d)))"
proof -
  have eq: "submitDisabled (render (component d))
       = (path (state (component d)) = [] \<or> isGitRepository (state (component d)) = None)"
    by (simp add: render_def)
  have "isGitRepository (state (component d)) = None"
    if inflight: "checkGitRepositoryToken (component d) \<in> set (tokensInFlight d)"
  proof -
    from assms have sync: "inSync untildify d" by (rule reachable_inv)
    from inflight have "inFlight d \<noteq> []" by (auto simp: tokensInFlight_def)
    with sync have pos: "0 < checkGitRepositoryToken (component d)"
      unfolding inSync_def Let_def by auto
    with sync inflight have "outcomeOf d (checkGitRepositoryToken (component d)) = None"
      unfolding inSync_def Let_def by simp
    then have "latestFlag d = None" by (simp add: latestFlag_def)
    with sync pos show ?thesis unfolding inSync_def Let_def by simp
  qed
  with eq show ?thesis by simp
qed

theorem submit_disabled_witness:
  "run id mount [PathChanged ''a'', CheckSettled 1 (Fulfilled True), PathChanged ''b''] \<noteq> None \<and>
   tokensInFlight (the (run id mount
     [PathChanged ''a'', CheckSettled 1 (Fulfilled True), PathChanged ''b''])) = [2] \<and>
   submitDisabled (render (component (the (run id mount
     [PathChanged ''a'', CheckSettled 1 (Fulfilled True), PathChanged ''b'']))))"
proof -
  let ?es = "[PathChanged ''a'', CheckSettled 1 (Fulfilled True), PathChanged ''b'']"
  let ?d = "\<lparr> component = \<lparr> state = \<lparr> path = ''b'', isGitRepository = None \<rparr>,
                        checkGitRepositoryToken = 2 \<rparr>,
          inFlight = [\<lparr> checkToken = 2, checkPath = ''b'' \<rparr>],
          settledChecks = [(\<lparr> checkToken = 1, checkPath = ''a'' \<rparr>, Fulfilled True)] \<rparr>"
  have r: "run id mount ?es = Some ?d" by code_simp
  have "checkGitRepositoryToken (component ?d) \<in> set (tokensInFlight ?d)"
    by (simp add: tokensInFlight_def)
  with submit_disabled [OF r] have "submitDisabled (render (component ?d))" by blast
  then show ?thesis unfolding r by (simp add: tokensInFlight_def)
qed

text \<open>
  Claim C10 as stated fails for a check that has been superseded: after two path
  changes, once the second check has answered, the first is still in flight and the
  button is enabled.
\<close>

theorem submit_enabled_with_check_in_flight:
  "map_option tokensInFlight (run id mount
     [PathChanged ''a'', PathChanged ''b'', CheckSettled 2 (Fulfilled True)]) = Some [1] \<and>
   map_option (submitDisabled \<circ> render \<circ> component) (run id mount
     [PathChanged ''a'', PathChanged ''b'', CheckSettled 2 (Fulfilled True)]) = Some False"
  by code_simp

text \<open>
  Claim C5, as amended. A check that fails leaves the component, and with it what is
  rendered, exactly as it was; when the failing check is the most recently issued one,
  the flag it leaves is the pending one.
\<close>

theorem failed_check_changes_nothing:
  assumes "run untildify mount es = Some d"
    and "step untildify d (CheckSettled token Rejected) = Some d'"
  shows
    "component d' = component d \<and>
     render (component d') = render (component d) \<and>
     (token = checkGitRepositoryToken (component d) \<longrightarrow>
        isGitRepository (state (component d')) = None)"
proof -
  from assms(2) have same: "component d' = component d"
    by (auto simp: step_def checkIfPathIsRepository_resume_def split: option.splits)
  have "isGitRepository (state (component d)) = None"
    if latest: "token = checkGitRepositoryToken (component d)"
  proof -
    from assms(2) obtain k where "find (\<lambda>k. checkToken k = token) (inFlight d) = Some k"
      by (auto simp: step_def split: option.splits)
    then have k: "k \<in> set (inFlight d)" "checkToken k = token"
      by (auto simp: find_Some_iff)
    from k(1) have "checkToken k \<in> set (tokensInFlight d)"
      by (simp add: tokensInFlight_def)
    with k(2) latest
    have inflight: "checkGitRepositoryToken (component d) \<in> set (tokensInFlight d)"
      by simp
    from assms(1) have sync: "inSync untildify d" by (rule reachable_inv)
    from k have "inFlight d \<noteq> []" by auto
    with sync have pos: "0 < checkGitRepositoryToken (component d)"
      unfolding inSync_def Let_def by auto
    with sync inflight have "outcomeOf d (checkGitRepositoryToken (component d)) = None"
      unfolding inSync_def Let_def by simp
    then have "latestFlag d = None" by (simp add: latestFlag_def)
    with sync pos show ?thesis unfolding inSync_def Let_def by simp
  qed
  with same show ?thesis by simp
qed

theorem failed_check_changes_nothing_witness:
  "run id mount [PathChanged ''a''] \<noteq> None \<and>
   step id (the (run id mount [PathChanged ''a''])) (CheckSettled 1 Rejected) \<noteq> None \<and>
   isGitRepository (state (component (the
     (step id (the (run id mount [PathChanged ''a''])) (CheckSettled 1 Rejected))))) = None"
proof -
  let ?d = "\<lparr> component = \<lparr> state = \<lparr> path = ''a'', isGitRepository = None \<rparr>,
                        checkGitRepositoryToken = 1 \<rparr>,
          inFlight = [\<lparr> checkToken = 1, checkPath = ''a'' \<rparr>],
          settledChecks = [] \<rparr>"
  let ?d' = "\<lparr> component = \<lparr> state = \<lparr> path = ''a'', isGitRepository = None \<rparr>,
                        checkGitRepositoryToken = 1 \<rparr>,
          inFlight = [],
          settledChecks = [(\<lparr> checkToken = 1, checkPath = ''a'' \<rparr>, Rejected)] \<rparr>"
  have r: "run id mount [PathChanged ''a''] = Some ?d" by code_simp
  have s: "step id ?d (CheckSettled 1 Rejected) = Some ?d'" by code_simp
  from failed_check_changes_nothing [OF r s]
  have "isGitRepository (state (component ?d')) = None" by simp
  then show ?thesis unfolding r option.sel s by simp
qed

text \<open>
  Claim C5 as stated fails for a check that has been superseded: when the second of
  two checks has answered \<open>true\<close> and the first then fails, the flag that is left is
  \<open>true\<close>.
\<close>

theorem failed_stale_check_leaves_true:
  "map_option (isGitRepository \<circ> state \<circ> component) (run id mount
     [PathChanged ''a'', PathChanged ''b'', CheckSettled 2 (Fulfilled True),
      CheckSettled 1 Rejected]) = Some (Some True)"
  by code_simp

section \<open>Verification of the author input\<close>

subsection \<open>Positions and indices\<close>

lemma lineStart_0 [simp]: "lineStart ls 0 = 0"
  by (simp add: lineStart_def)

lemma lineStart_Cons [simp]:
  "lineStart (l # ls) (Suc n) = int (length l) + 1 + lineStart ls n"
  by (simp add: lineStart_def)

lemma lineStart_nonneg: "0 \<le> lineStart ls n"
  unfolding lineStart_def by (rule sum_list_nonneg) auto

lemma lineStart_Suc:
  "n < length ls \<Longrightarrow> lineStart ls (Suc n) = lineStart ls n + int (length (ls ! n)) + 1"
  by (simp add: lineStart_def take_Suc_conv_app_nth)

lemma lineStart_mono: "n \<le> m \<Longrightarrow> lineStart ls n \<le> lineStart ls m"
proof (induction ls arbitrary: n m)
  case Nil
  then show ?case by (simp add: lineStart_def)
next
  case (Cons l ls)
  show ?case
  proof (cases n)
    case 0
    then show ?thesis by (simp add: lineStart_nonneg)
  next
    case (Suc n')
    with Cons.prems obtain m' where m: "m = Suc m'" "n' \<le> m'" by (cases m) auto
    with Cons.IH [of n' m'] Suc show ?thesis by simp
  qed
qed

lemma iter_None:
  "ls \<noteq> [] \<or> 0 \<le> off \<Longrightarrow>
     (posFromIndex_iter ls off n0 = None) = (lineStart ls (length ls) \<le> off)"
proof (induction ls arbitrary: off n0)
  case Nil
  then show ?case by simp
next
  case (Cons l ls)
  show ?case
  proof (cases "int (length l) + 1 > off")
    case True
    with lineStart_nonneg [of ls "length ls"] show ?thesis by (simp add: Let_def)
  next
    case False
    then have "0 \<le> off - (int (length l) + 1)" by simp
    then have "(posFromIndex_iter ls (off - (int (length l) + 1)) (Suc n0) = None)
                 = (lineStart ls (length ls) \<le> off - (int (length l) + 1))"
      by (intro Cons.IH) simp
    with False show ?thesis by (simp add: Let_def) linarith
  qed
qed

lemma iter_Some:
  "posFromIndex_iter ls off n0 = Some p \<Longrightarrow>
     n0 \<le> line p \<and> line p - n0 < length ls \<and> ch p \<le> length (ls ! (line p - n0)) \<and>
     lineStart ls (line p - n0) + int (ch p) = max 0 off"
proof (induction ls arbitrary: off n0)
  case Nil
  then show ?case by simp
next
  case (Cons l ls)
  show ?case
  proof (cases "int (length l) + 1 > off")
    case True
    with Cons.prems have "p = \<lparr> line = n0, ch = nat off \<rparr>" by (simp add: Let_def)
    with True show ?thesis by auto
  next
    case False
    with Cons.prems have "posFromIndex_iter ls (off - (int (length l) + 1)) (Suc n0) = Some p"
      by (simp add: Let_def)
    from Cons.IH [OF this]
    have ih: "Suc n0 \<le> line p" "line p - Suc n0 < length ls"
      "ch p \<le> length (ls ! (line p - Suc n0))"
      "lineStart ls (line p - Suc n0) + int (ch p) = max 0 (off - (int (length l) + 1))"
      by simp_all
    from ih(1) have eq: "line p - n0 = Suc (line p - Suc n0)" by simp
    from ih False show ?thesis unfolding eq by simp
  qed
qed

lemma iter_at:
  "k < length ls \<Longrightarrow> c \<le> length (ls ! k) \<Longrightarrow>
     posFromIndex_iter ls (lineStart ls k + int c) n0 = Some \<lparr> line = n0 + k, ch = c \<rparr>"
proof (induction ls arbitrary: k n0)
  case Nil
  then show ?case by simp
next
  case (Cons l ls)
  show ?case
  proof (cases k)
    case 0
    with Cons.prems show ?thesis by (simp add: Let_def)
  next
    case (Suc k')
    with Cons.prems have "k' < length ls" "c \<le> length (ls ! k')" by simp_all
    from Cons.IH [OF this, of "Suc n0"] Suc lineStart_nonneg [of ls k'] show ?thesis
      by (simp add: Let_def add.commute add.left_commute)
  qed
qed

lemma docLines_nonempty: "docLines doc \<noteq> []" "0 < length (docLines doc)"
  by (simp_all add: docLines_def)

lemma lastLine_less: "lastLine doc < length (docLines doc)"
  by (simp add: lastLine_def docLines_def)

lemma validPos_clipPos: "validPos doc (clipPos doc pos)"
  using lastLine_less [of doc]
  by (auto simp: validPos_def clipPos_def Let_def lastLine_def)

lemma clipPos_valid: "validPos doc pos \<Longrightarrow> clipPos doc pos = pos"
  by (auto simp: validPos_def clipPos_def Let_def lastLine_def)

lemma indexFromPos_valid:
  "validPos doc pos \<Longrightarrow> indexFromPos doc pos = int (ch pos) + lineStart (docLines doc) (line pos)"
  by (simp add: indexFromPos_def clipPos_valid)

lemma indexFromPos_clipPos: "indexFromPos doc (clipPos doc pos) = indexFromPos doc pos"
  by (simp add: indexFromPos_def clipPos_valid [OF validPos_clipPos])

lemma validPos_end:
  "validPos doc \<lparr> line = lastLine doc, ch = length (docLines doc ! lastLine doc) \<rparr>"
  using lastLine_less [of doc] by (simp add: validPos_def)

lemma index_end:
  "indexFromPos doc \<lparr> line = lastLine doc, ch = length (docLines doc ! lastLine doc) \<rparr> = docEnd doc"
proof -
  have "Suc (lastLine doc) = length (docLines doc)"
    by (simp add: lastLine_def docLines_def)
  with lineStart_Suc [OF lastLine_less, of doc] show ?thesis
    by (simp add: indexFromPos_valid [OF validPos_end] docEnd_def)
qed

lemma validPos_posFromIndex: "validPos doc (posFromIndex doc off)"
proof (cases "posFromIndex_iter (docLines doc) off 0")
  case None
  then show ?thesis by (simp add: posFromIndex_def validPos_end)
next
  case (Some p)
  from iter_Some [OF Some] show ?thesis by (simp add: posFromIndex_def Some validPos_def)
qed

lemma index_posFromIndex:
  "indexFromPos doc (posFromIndex doc off) = max 0 (min off (docEnd doc))"
proof (cases "posFromIndex_iter (docLines doc) off 0")
  case None
  then have "docEnd doc < off"
    using iter_None [of "docLines doc" off 0] by (simp add: docLines_nonempty docEnd_def)
  moreover have "0 \<le> docEnd doc"
    using index_end [of doc] lineStart_nonneg [of "docLines doc" "lastLine doc"]
    by (simp add: indexFromPos_valid [OF validPos_end])
  ultimately show ?thesis using None by (simp add: posFromIndex_def index_end)
next
  case (Some p)
  then have "\<not> lineStart (docLines doc) (length (docLines doc)) \<le> off"
    using iter_None [of "docLines doc" off 0] by (simp add: docLines_nonempty)
  then have lt: "off \<le> docEnd doc" by (simp add: docEnd_def)
  from iter_Some [OF Some] have v: "validPos doc p"
    and i: "lineStart (docLines doc) (line p) + int (ch p) = max 0 off"
    by (simp_all add: validPos_def)
  from i lt show ?thesis
    by (simp add: posFromIndex_def Some indexFromPos_valid [OF v] add.commute)
qed

lemma index_bounds: "0 \<le> indexFromPos doc pos" "indexFromPos doc pos \<le> docEnd doc"
proof -
  let ?c = "clipPos doc pos"
  have v: "validPos doc ?c" by (rule validPos_clipPos)
  then have l: "line ?c < length (docLines doc)" and c: "ch ?c \<le> length (docLines doc ! line ?c)"
    by (simp_all add: validPos_def)
  have idx: "indexFromPos doc pos = int (ch ?c) + lineStart (docLines doc) (line ?c)"
    by (simp add: indexFromPos_def Let_def)
  show "0 \<le> indexFromPos doc pos"
    unfolding idx using lineStart_nonneg [of "docLines doc" "line ?c"] by simp
  have "lineStart (docLines doc) (Suc (line ?c)) \<le> lineStart (docLines doc) (length (docLines doc))"
    using l by (intro lineStart_mono) simp
  with lineStart_Suc [OF l] c show "indexFromPos doc pos \<le> docEnd doc"
    unfolding idx docEnd_def by simp
qed

lemma posFromIndex_index:
  "validPos doc pos \<Longrightarrow> posFromIndex doc (indexFromPos doc pos) = pos"
proof -
  assume v: "validPos doc pos"
  then have "line pos < length (docLines doc)" "ch pos \<le> length (docLines doc ! line pos)"
    by (simp_all add: validPos_def)
  from iter_at [OF this, of 0] show ?thesis
    by (simp add: posFromIndex_def indexFromPos_valid [OF v] add.commute)
qed

lemma index_previous:
  "indexFromPos doc (previousPosition doc pos) = max 0 (indexFromPos doc pos - 1)"
  using index_bounds [of doc pos] by (simp add: previousPosition_def index_posFromIndex)

lemma index_next:
  "indexFromPos doc (nextPosition doc pos) = min (indexFromPos doc pos + 1) (docEnd doc)"
  using index_bounds [of doc pos] by (simp add: nextPosition_def index_posFromIndex)

subsection \<open>The scan of the hint range\<close>

lemma insideAny_iff:
  "insideAny doc ix ms =
     (\<exists>m \<in> set ms. indexFromPos doc (from_pos m) < ix \<and> ix < indexFromPos doc (to_pos m))"
  by (induction ms) (auto simp: Let_def)

lemma posIsInsideMarkedText_iff: "posIsInsideMarkedText doc pos = insideMark doc pos"
  by (auto simp: posIsInsideMarkedText_def insideMark_def insideAny_iff findMarksAt_def Let_def)

lemma isMarkOrWhitespace_valid:
  assumes "validPos doc pos"
  shows "isMarkOrWhitespace doc pos = Inr (whitespaceAt doc pos \<or> insideMark doc pos)"
proof -
  from assms have "getLine doc (line pos) = Some (docLines doc ! line pos)"
    by (simp add: validPos_def getLine_def)
  then show ?thesis
    by (simp add: isMarkOrWhitespace_def whitespaceAt_def charAt_def posIsInsideMarkedText_iff)
qed

lemma isMarkOrWhitespace_posFromIndex:
  "isMarkOrWhitespace doc (posFromIndex doc j) = Inr (stopAt doc j)"
  by (simp add: isMarkOrWhitespace_valid validPos_posFromIndex stopAt_def)

lemma posFromIndex_clamp:
  "posFromIndex doc (max 0 (min off (docEnd doc))) = posFromIndex doc off"
  using posFromIndex_index [OF validPos_posFromIndex, of doc off]
  by (simp add: index_posFromIndex)

lemma previousPosition_eq:
  "previousPosition doc pos = posFromIndex doc (max 0 (indexFromPos doc pos - 1))"
proof -
  have "max 0 (min (indexFromPos doc pos - 1) (docEnd doc)) = max 0 (indexFromPos doc pos - 1)"
    using index_bounds [of doc pos] by simp
  with posFromIndex_clamp [of doc "indexFromPos doc pos - 1"] show ?thesis
    by (simp add: previousPosition_def)
qed

lemma nextPosition_eq:
  "nextPosition doc pos = posFromIndex doc (min (indexFromPos doc pos + 1) (docEnd doc))"
proof -
  have "max 0 (min (indexFromPos doc pos + 1) (docEnd doc)) = min (indexFromPos doc pos + 1) (docEnd doc)"
    using index_bounds [of doc pos] by simp
  with posFromIndex_clamp [of doc "indexFromPos doc pos + 1"] show ?thesis
    by (simp add: nextPosition_def)
qed

lemma stop_previous:
  "isMarkOrWhitespace doc (previousPosition doc pos)
     = Inr (stopAt doc (max 0 (indexFromPos doc pos - 1)))"
  by (simp add: previousPosition_eq [of doc pos] isMarkOrWhitespace_posFromIndex)

lemma stop_next:
  "isMarkOrWhitespace doc (nextPosition doc pos)
     = Inr (stopAt doc (min (indexFromPos doc pos + 1) (docEnd doc)))"
  by (simp add: nextPosition_eq [of doc pos] isMarkOrWhitespace_posFromIndex)

lemma extendFrom_unfold:
  "extendFrom doc pos =
     (if stopAt doc (max 0 (indexFromPos doc pos - 1)) then Some (Inr pos)
      else extendFrom doc (previousPosition doc pos))"
  by (subst extendFrom.simps) (simp add: stop_previous)

lemma extendTo_unfold:
  "extendTo doc pos =
     (if stopAt doc (min (indexFromPos doc pos + 1) (docEnd doc)) then Some (Inr pos)
      else extendTo doc (nextPosition doc pos))"
  by (subst extendTo.simps) (simp add: stop_next)

lemma extendFrom_sound:
  assumes "extendFrom doc pos = Some y"
  shows "\<exists>r. y = Inr r \<and> indexFromPos doc r \<le> indexFromPos doc pos \<and>
           stopAt doc (max 0 (indexFromPos doc r - 1)) \<and>
           (\<forall>j. indexFromPos doc r \<le> j \<and> j < indexFromPos doc pos \<longrightarrow> \<not> stopAt doc j)"
  using assms
proof (induction rule: extendFrom.raw_induct [rotated 1, consumes 1])
  case (1 f doc pos y)
  let ?i = "indexFromPos doc pos"
  let ?p = "previousPosition doc pos"
  have ip: "indexFromPos doc ?p = max 0 (?i - 1)" by (rule index_previous)
  have body: "(if stopAt doc (max 0 (?i - 1)) then Some (Inr pos) else f doc ?p) = Some y"
    using 1(2) by (simp add: stop_previous split: if_splits)
  show ?case
  proof (cases "stopAt doc (max 0 (?i - 1))")
    case True
    with body have "y = Inr pos" by simp
    with True show ?thesis by auto
  next
    case False
    with body have "f doc ?p = Some y" by simp
    from 1(1) [OF this] obtain r where r: "y = Inr r"
      "indexFromPos doc r \<le> max 0 (?i - 1)"
      "stopAt doc (max 0 (indexFromPos doc r - 1))"
      "\<forall>j. indexFromPos doc r \<le> j \<and> j < max 0 (?i - 1) \<longrightarrow> \<not> stopAt doc j"
      unfolding ip by blast
    have le: "indexFromPos doc r \<le> ?i"
      using r(2) index_bounds(1) [of doc pos] by simp
    have "\<not> stopAt doc j" if j: "indexFromPos doc r \<le> j" "j < ?i" for j
    proof (cases "j < max 0 (?i - 1)")
      case True
      with r(4) j(1) show ?thesis by blast
    next
      case False
      with j(2) have "j = max 0 (?i - 1)" by simp
      with \<open>\<not> stopAt doc (max 0 (?i - 1))\<close> show ?thesis by simp
    qed
    with r(1,3) le show ?thesis by blast
  qed
qed

lemma extendTo_sound:
  assumes "extendTo doc pos = Some y"
  shows "\<exists>r. y = Inr r \<and> indexFromPos doc pos \<le> indexFromPos doc r \<and>
           stopAt doc (min (indexFromPos doc r + 1) (docEnd doc)) \<and>
           (\<forall>j. indexFromPos doc pos < j \<and> j \<le> indexFromPos doc r \<longrightarrow> \<not> stopAt doc j)"
  using assms
proof (induction rule: extendTo.raw_induct [rotated 1, consumes 1])
  case (1 f doc pos y)
  let ?i = "indexFromPos doc pos"
  let ?n = "nextPosition doc pos"
  let ?e = "docEnd doc"
  have ip: "indexFromPos doc ?n = min (?i + 1) ?e" by (rule index_next)
  have body: "(if stopAt doc (min (?i + 1) ?e) then Some (Inr pos) else f doc ?n) = Some y"
    using 1(2) by (simp add: stop_next split: if_splits)
  show ?case
  proof (cases "stopAt doc (min (?i + 1) ?e)")
    case True
    with body have "y = Inr pos" by simp
    with True show ?thesis by auto
  next
    case False
    with body have "f doc ?n = Some y" by simp
    from 1(1) [OF this] obtain r where r: "y = Inr r"
      "min (?i + 1) ?e \<le> indexFromPos doc r"
      "stopAt doc (min (indexFromPos doc r + 1) ?e)"
      "\<forall>j. min (?i + 1) ?e < j \<and> j \<le> indexFromPos doc r \<longrightarrow> \<not> stopAt doc j"
      unfolding ip by blast
    have le: "?i \<le> indexFromPos doc r"
      using r(2) index_bounds(2) [of doc pos] by simp
    have "\<not> stopAt doc j" if j: "?i < j" "j \<le> indexFromPos doc r" for j
    proof (cases "min (?i + 1) ?e < j")
      case True
      with r(4) j(2) show ?thesis by blast
    next
      case False
      with j(1) have "j = min (?i + 1) ?e" by simp
      with \<open>\<not> stopAt doc (min (?i + 1) ?e)\<close> show ?thesis by simp
    qed
    with r(1,3) le show ?thesis by blast
  qed
qed

lemma extendFrom_terminates:
  assumes "0 \<le> j" "j \<le> max 0 (indexFromPos doc pos - 1)" "stopAt doc j"
  shows "\<exists>r. extendFrom doc pos = Some (Inr r)"
  using assms
proof (induction "nat (indexFromPos doc pos)" arbitrary: pos rule: less_induct)
  case less
  let ?i = "indexFromPos doc pos"
  let ?p = "previousPosition doc pos"
  show ?case
  proof (cases "stopAt doc (max 0 (?i - 1))")
    case True
    then show ?thesis by (subst extendFrom_unfold) simp
  next
    case False
    with less.prems have lt: "j < max 0 (?i - 1)" by (cases "j = max 0 (?i - 1)") auto
    have ip: "indexFromPos doc ?p = max 0 (?i - 1)" by (rule index_previous)
    from lt less.prems(1) have "nat (indexFromPos doc ?p) < nat ?i" unfolding ip by simp
    moreover from lt have "j \<le> max 0 (indexFromPos doc ?p - 1)" unfolding ip by simp
    ultimately have "\<exists>r. extendFrom doc ?p = Some (Inr r)"
      using less.prems(1,3) by (intro less.hyps)
    with False show ?thesis by (subst extendFrom_unfold) simp
  qed
qed

lemma extendTo_terminates:
  assumes "min (indexFromPos doc pos + 1) (docEnd doc) \<le> j" "j \<le> docEnd doc" "stopAt doc j"
  shows "\<exists>r. extendTo doc pos = Some (Inr r)"
  using assms
proof (induction "nat (docEnd doc - indexFromPos doc pos)" arbitrary: pos rule: less_induct)
  case less
  let ?i = "indexFromPos doc pos"
  let ?n = "nextPosition doc pos"
  let ?e = "docEnd doc"
  show ?case
  proof (cases "stopAt doc (min (?i + 1) ?e)")
    case True
    then show ?thesis by (subst extendTo_unfold) simp
  next
    case False
    with less.prems have lt: "min (?i + 1) ?e < j" by (cases "j = min (?i + 1) ?e") auto
    have ip: "indexFromPos doc ?n = min (?i + 1) ?e" by (rule index_next)
    from lt less.prems(2) have "nat (?e - indexFromPos doc ?n) < nat (?e - ?i)"
      unfolding ip by simp
    moreover from lt have "min (indexFromPos doc ?n + 1) ?e \<le> j" unfolding ip by simp
    ultimately have "\<exists>r. extendTo doc ?n = Some (Inr r)"
      using less.prems(2,3) by (intro less.hyps)
    with False show ?thesis by (subst extendTo_unfold) simp
  qed
qed

subsection \<open>The claims about the hint range\<close>

lemma extendFrom_None:
  assumes "\<forall>j. 0 \<le> j \<and> j \<le> max 0 (indexFromPos doc pos - 1) \<longrightarrow> \<not> stopAt doc j"
  shows "extendFrom doc pos = None"
proof (cases "extendFrom doc pos")
  case None
  then show ?thesis .
next
  case (Some y)
  from extendFrom_sound [OF Some] obtain r where
    r: "indexFromPos doc r \<le> indexFromPos doc pos" "stopAt doc (max 0 (indexFromPos doc r - 1))"
    by blast
  from r(1) have "max 0 (indexFromPos doc r - 1) \<le> max 0 (indexFromPos doc pos - 1)" by simp
  with assms r(2) show ?thesis by (metis max.cobounded1)
qed

lemma extendTo_None:
  assumes "\<forall>j. min (indexFromPos doc pos + 1) (docEnd doc) \<le> j \<and> j \<le> docEnd doc \<longrightarrow> \<not> stopAt doc j"
  shows "extendTo doc pos = None"
proof (cases "extendTo doc pos")
  case None
  then show ?thesis .
next
  case (Some y)
  from extendTo_sound [OF Some] obtain r where
    r: "indexFromPos doc pos \<le> indexFromPos doc r"
       "stopAt doc (min (indexFromPos doc r + 1) (docEnd doc))"
    by blast
  from r(1) have "min (indexFromPos doc pos + 1) (docEnd doc) \<le> min (indexFromPos doc r + 1) (docEnd doc)"
    by simp
  with assms r(2) show ?thesis by (metis min.cobounded2)
qed

lemma stopAt_previous:
  "stopAt doc (max 0 (indexFromPos doc pos - 1))
     = (whitespaceAt doc (previousPosition doc pos) \<or> insideMark doc (previousPosition doc pos))"
  by (simp add: stopAt_def previousPosition_eq [of doc pos])

lemma stopAt_next:
  "stopAt doc (min (indexFromPos doc pos + 1) (docEnd doc))
     = (whitespaceAt doc (nextPosition doc pos) \<or> insideMark doc (nextPosition doc pos))"
  by (simp add: stopAt_def nextPosition_eq [of doc pos])

text \<open>
  What the two loops establish. Whenever \<open>getHintRangeFromCursor\<close> returns, it returns
  a range (never an error) whose \<open>from\<close> is at or before the cursor and whose \<open>to\<close>
  is at or after it, by index; every position that a loop tested and went past, from
  \<open>from\<close> up to the cursor and from the cursor up to \<open>to\<close>, neither holds a
  whitespace character nor lies strictly inside a marker's range; and the position one
  step before \<open>from\<close> and the position one step after \<open>to\<close> each hold whitespace or
  lie strictly inside a marker's range. This is less than a range free of whitespace:
  neither loop tests the cursor's own position (the forward loop tests the position
  after \<open>to\<close> before it has tested \<open>to\<close> itself), and the end of a line holds no
  character, so that a line break does not stop the scan.
\<close>

lemma hint_range_is_unmarked_run:
  assumes "getHintRangeFromCursor doc cursor = Some y"
  shows "\<exists>r. y = Inr r \<and>
    indexFromPos doc (range_from r) \<le> indexFromPos doc cursor \<and>
    indexFromPos doc cursor \<le> indexFromPos doc (range_to r) \<and>
    (\<forall>j. indexFromPos doc (range_from r) \<le> j \<and> j < indexFromPos doc cursor \<longrightarrow>
       \<not> whitespaceAt doc (posFromIndex doc j) \<and> \<not> insideMark doc (posFromIndex doc j)) \<and>
    (\<forall>j. indexFromPos doc cursor < j \<and> j \<le> indexFromPos doc (range_to r) \<longrightarrow>
       \<not> whitespaceAt doc (posFromIndex doc j) \<and> \<not> insideMark doc (posFromIndex doc j)) \<and>
    (whitespaceAt doc (previousPosition doc (range_from r)) \<or>
       insideMark doc (previousPosition doc (range_from r))) \<and>
    (whitespaceAt doc (nextPosition doc (range_to r)) \<or>
       insideMark doc (nextPosition doc (range_to r)))"
proof -
  from assms obtain y1 where f: "extendFrom doc cursor = Some y1"
    by (auto simp: getHintRangeFromCursor_def split: option.splits)
  from extendFrom_sound [OF f] obtain a where a: "y1 = Inr a"
    "indexFromPos doc a \<le> indexFromPos doc cursor"
    "stopAt doc (max 0 (indexFromPos doc a - 1))"
    "\<forall>j. indexFromPos doc a \<le> j \<and> j < indexFromPos doc cursor \<longrightarrow> \<not> stopAt doc j"
    by blast
  from assms f a(1) obtain y2 where t: "extendTo doc cursor = Some y2"
    by (auto simp: getHintRangeFromCursor_def split: option.splits)
  from extendTo_sound [OF t] obtain b where b: "y2 = Inr b"
    "indexFromPos doc cursor \<le> indexFromPos doc b"
    "stopAt doc (min (indexFromPos doc b + 1) (docEnd doc))"
    "\<forall>j. indexFromPos doc cursor < j \<and> j \<le> indexFromPos doc b \<longrightarrow> \<not> stopAt doc j"
    by blast
  from assms f t a(1) b(1) have y: "y = Inr \<lparr> range_from = a, range_to = b \<rparr>"
    by (simp add: getHintRangeFromCursor_def)
  show ?thesis
  proof (intro exI conjI)
    show "y = Inr \<lparr> range_from = a, range_to = b \<rparr>" by (rule y)
    show "indexFromPos doc (range_from \<lparr> range_from = a, range_to = b \<rparr>) \<le> indexFromPos doc cursor"
      using a(2) by simp
    show "indexFromPos doc cursor \<le> indexFromPos doc (range_to \<lparr> range_from = a, range_to = b \<rparr>)"
      using b(2) by simp
    show "\<forall>j. indexFromPos doc (range_from \<lparr> range_from = a, range_to = b \<rparr>) \<le> j \<and>
               j < indexFromPos doc cursor \<longrightarrow>
             \<not> whitespaceAt doc (posFromIndex doc j) \<and> \<not> insideMark doc (posFromIndex doc j)"
      using a(4) by (simp add: stopAt_def)
    show "\<forall>j. indexFromPos doc cursor < j \<and>
               j \<le> indexFromPos doc (range_to \<lparr> range_from = a, range_to = b \<rparr>) \<longrightarrow>
             \<not> whitespaceAt doc (posFromIndex doc j) \<and> \<not> insideMark doc (posFromIndex doc j)"
      using b(4) by (simp add: stopAt_def)
    show "whitespaceAt doc (previousPosition doc (range_from \<lparr> range_from = a, range_to = b \<rparr>)) \<or>
          insideMark doc (previousPosition doc (range_from \<lparr> range_from = a, range_to = b \<rparr>))"
      using a(3) by (simp add: stopAt_previous)
    show "whitespaceAt doc (nextPosition doc (range_to \<lparr> range_from = a, range_to = b \<rparr>)) \<or>
          insideMark doc (nextPosition doc (range_to \<lparr> range_from = a, range_to = b \<rparr>))"
      using b(3) by (simp add: stopAt_next)
  qed
qed

lemma coAuthorsDoc_range:
  "getHintRangeFromCursor coAuthorsDoc \<lparr> line = 0, ch = 13 \<rparr> =
     Some (Inr \<lparr> range_from = \<lparr> line = 0, ch = 11 \<rparr>, range_to = \<lparr> line = 0, ch = 14 \<rparr> \<rparr>)"
  by code_simp

lemma hint_range_is_unmarked_run_witness:
  "getHintRangeFromCursor coAuthorsDoc \<lparr> line = 0, ch = 13 \<rparr> =
     Some (Inr \<lparr> range_from = \<lparr> line = 0, ch = 11 \<rparr>, range_to = \<lparr> line = 0, ch = 14 \<rparr> \<rparr>) \<and>
   (whitespaceAt coAuthorsDoc (previousPosition coAuthorsDoc \<lparr> line = 0, ch = 11 \<rparr>) \<or>
    insideMark coAuthorsDoc (previousPosition coAuthorsDoc \<lparr> line = 0, ch = 11 \<rparr>)) \<and>
   (whitespaceAt coAuthorsDoc (nextPosition coAuthorsDoc \<lparr> line = 0, ch = 14 \<rparr>) \<or>
    insideMark coAuthorsDoc (nextPosition coAuthorsDoc \<lparr> line = 0, ch = 14 \<rparr>))"
proof -
  from hint_range_is_unmarked_run [OF coAuthorsDoc_range] obtain r where
    "Inr \<lparr> range_from = \<lparr> line = 0, ch = 11 \<rparr>, range_to = \<lparr> line = 0, ch = 14 \<rparr> \<rparr>
       = (Inr r :: error + HintRange)"
    "whitespaceAt coAuthorsDoc (previousPosition coAuthorsDoc (range_from r)) \<or>
       insideMark coAuthorsDoc (previousPosition coAuthorsDoc (range_from r))"
    "whitespaceAt coAuthorsDoc (nextPosition coAuthorsDoc (range_to r)) \<or>
       insideMark coAuthorsDoc (nextPosition coAuthorsDoc (range_to r))"
    by blast
  then show ?thesis using coAuthorsDoc_range by auto
qed

text \<open>
  Claim C2. The range that \<open>getHintRangeFromCursor\<close> returns is to be a contiguous run
  around the cursor without whitespace and without marked text. The code misses that
  at the cursor's own position. In \<open>spacedDoc\<close>, a document of the component, with the
  cursor right after the \<open>@\<close> just typed, the change handler opens the suggestions;
  the range then computed runs from the \<open>@\<close> to the placeholder, its text has a space
  in it, and that space is at the cursor's position.
\<close>

theorem hint_range_holds_whitespace:
  "onChanges coAuthorsInput spacedDoc
     \<lparr> primary = \<lparr> anchor = \<lparr> line = 0, ch = 12 \<rparr>, head = \<lparr> line = 0, ch = 12 \<rparr> \<rparr>,
       others = [] \<rparr> = True \<and>
   getHintRangeFromCursor spacedDoc \<lparr> line = 0, ch = 12 \<rparr> =
     Some (Inr \<lparr> range_from = \<lparr> line = 0, ch = 11 \<rparr>, range_to = \<lparr> line = 0, ch = 14 \<rparr> \<rparr>) \<and>
   getRange spacedDoc \<lparr> line = 0, ch = 11 \<rparr> \<lparr> line = 0, ch = 14 \<rparr> = ''@ x'' \<and>
   whitespaceAt spacedDoc \<lparr> line = 0, ch = 12 \<rparr> = True \<and>
   isMarkOrWhitespace spacedDoc \<lparr> line = 0, ch = 12 \<rparr> = Inr True"
  by code_simp

lemma returns_iff_stops:
  "(\<exists>r. getHintRangeFromCursor doc cursor = Some (Inr r)) =
     ((\<exists>j. 0 \<le> j \<and> j \<le> max 0 (indexFromPos doc cursor - 1) \<and> stopAt doc j) \<and>
      (\<exists>j. min (indexFromPos doc cursor + 1) (docEnd doc) \<le> j \<and> j \<le> docEnd doc \<and> stopAt doc j))"
  (is "?L = (?A \<and> ?B)")
proof
  assume ?L
  then have ne: "getHintRangeFromCursor doc cursor \<noteq> None" by auto
  then obtain y1 where f: "extendFrom doc cursor = Some y1"
    by (auto simp: getHintRangeFromCursor_def split: option.splits)
  from extendFrom_sound [OF f] obtain a where "y1 = Inr a" by blast
  with ne f have "extendFrom doc cursor \<noteq> None" "extendTo doc cursor \<noteq> None"
    by (auto simp: getHintRangeFromCursor_def split: option.splits)
  with extendFrom_None [of doc cursor] extendTo_None [of doc cursor]
  show "?A \<and> ?B" by blast
next
  assume "?A \<and> ?B"
  then obtain a b where "extendFrom doc cursor = Some (Inr a)" "extendTo doc cursor = Some (Inr b)"
    using extendFrom_terminates [of _ doc cursor] extendTo_terminates [of doc cursor] by blast
  then show ?L by (simp add: getHintRangeFromCursor_def)
qed

lemma boundaries_clamp:
  "previousPosition doc (posFromIndex doc 0) = posFromIndex doc 0"
  "nextPosition doc (posFromIndex doc (docEnd doc)) = posFromIndex doc (docEnd doc)"
proof -
  have e: "0 \<le> docEnd doc" using index_bounds [of doc "posFromIndex doc 0"] by simp
  have "indexFromPos doc (posFromIndex doc 0) = 0"
    using e by (simp add: index_posFromIndex)
  then show "previousPosition doc (posFromIndex doc 0) = posFromIndex doc 0"
    using posFromIndex_clamp [of doc "-1"] e by (simp add: previousPosition_def)
  have "indexFromPos doc (posFromIndex doc (docEnd doc)) = docEnd doc"
    using e by (simp add: index_posFromIndex)
  then show "nextPosition doc (posFromIndex doc (docEnd doc)) = posFromIndex doc (docEnd doc)"
    using posFromIndex_clamp [of doc "docEnd doc + 1"] e by (simp add: nextPosition_def)
qed

text \<open>
  Claim C9, as amended. \<open>getHintRangeFromCursor\<close> returns exactly when
  \<open>isMarkOrWhitespace\<close> holds at some position before the cursor (at an index from 0
  up to one less than the cursor's; index 0 for a cursor at index 0) and at some
  position after it (at an index from one more than the cursor's up to the end of the
  document). At the boundaries \<open>previousPosition\<close> and \<open>nextPosition\<close> clamp: the
  position of index 0 is its own previous position and the end of the document is its
  own next position, so a scan that gets there without having stopped stays there.
\<close>

theorem hint_range_terminates_iff:
  "(\<exists>r. getHintRangeFromCursor doc cursor = Some (Inr r)) =
     ((\<exists>j. 0 \<le> j \<and> j \<le> max 0 (indexFromPos doc cursor - 1) \<and>
            isMarkOrWhitespace doc (posFromIndex doc j) = Inr True) \<and>
      (\<exists>j. min (indexFromPos doc cursor + 1) (docEnd doc) \<le> j \<and> j \<le> docEnd doc \<and>
            isMarkOrWhitespace doc (posFromIndex doc j) = Inr True)) \<and>
   previousPosition doc (posFromIndex doc 0) = posFromIndex doc 0 \<and>
   nextPosition doc (posFromIndex doc (docEnd doc)) = posFromIndex doc (docEnd doc)"
  by (simp add: returns_iff_stops boundaries_clamp isMarkOrWhitespace_posFromIndex)

text \<open>
  Claim C9 as stated fails on a document without whitespace or markers: from a cursor
  in \<open>ab\<close> the scan reaches the start of the document, which is its own previous
  position and does not stop the loop, and never returns.
\<close>

theorem hint_range_loops_forever:
  "getHintRangeFromCursor plainDoc \<lparr> line = 0, ch = 1 \<rparr> = None \<and>
   previousPosition plainDoc \<lparr> line = 0, ch = 0 \<rparr> = \<lparr> line = 0, ch = 0 \<rparr> \<and>
   isMarkOrWhitespace plainDoc \<lparr> line = 0, ch = 0 \<rparr> = Inr False"
proof -
  have i: "indexFromPos plainDoc \<lparr> line = 0, ch = 1 \<rparr> = 1" by code_simp
  have s: "\<not> stopAt plainDoc 0" by code_simp
  have "\<forall>j. 0 \<le> j \<and> j \<le> max 0 (indexFromPos plainDoc \<lparr> line = 0, ch = 1 \<rparr> - 1) \<longrightarrow>
          \<not> stopAt plainDoc j"
    unfolding i using s by auto
  then have "extendFrom plainDoc \<lparr> line = 0, ch = 1 \<rparr> = None" by (rule extendFrom_None)
  then have "getHintRangeFromCursor plainDoc \<lparr> line = 0, ch = 1 \<rparr> = None"
    by (simp add: getHintRangeFromCursor_def)
  moreover have "previousPosition plainDoc \<lparr> line = 0, ch = 0 \<rparr> = \<lparr> line = 0, ch = 0 \<rparr>"
    by code_simp
  moreover have "isMarkOrWhitespace plainDoc \<lparr> line = 0, ch = 0 \<rparr> = Inr False"
    by code_simp
  ultimately show ?thesis by simp
qed

subsection \<open>The change and cursor-activity handlers\<close>

lemma previous_in_line:
  assumes v: "validPos doc cur" and c: "ch cur = Suc k"
  shows "previousPosition doc cur = \<lparr> line = line cur, ch = k \<rparr>"
proof -
  let ?q = "\<lparr> line = line cur, ch = k \<rparr>"
  from v c have vq: "validPos doc ?q" by (simp add: validPos_def)
  have "indexFromPos doc cur - 1 = indexFromPos doc ?q"
    using c by (simp add: indexFromPos_valid [OF v] indexFromPos_valid [OF vq])
  then show ?thesis
    by (simp add: previousPosition_def posFromIndex_index [OF vq])
qed

lemma previous_line_break:
  assumes v: "validPos doc cur" and c: "ch cur = 0" and l: "line cur = Suc n"
  shows "previousPosition doc cur = \<lparr> line = n, ch = length (docLines doc ! n) \<rparr>"
proof -
  let ?q = "\<lparr> line = n, ch = length (docLines doc ! n) \<rparr>"
  from v l have n: "n < length (docLines doc)" by (simp add: validPos_def)
  then have vq: "validPos doc ?q" by (simp add: validPos_def)
  have "indexFromPos doc cur - 1 = indexFromPos doc ?q"
    using c l lineStart_Suc [OF n]
    by (simp add: indexFromPos_valid [OF v] indexFromPos_valid [OF vq])
  then show ?thesis
    by (simp add: previousPosition_def posFromIndex_index [OF vq])
qed

lemma previous_at_start:
  assumes v: "validPos doc cur" and c: "ch cur = 0" and l: "line cur = 0"
  shows "previousPosition doc cur = cur"
proof -
  have i: "indexFromPos doc cur = 0" using c l by (simp add: indexFromPos_valid [OF v])
  have "posFromIndex doc (- 1) = posFromIndex doc 0"
    using posFromIndex_clamp [of doc "- 1"] index_bounds [of doc cur] by simp
  also have "\<dots> = cur" using posFromIndex_index [OF v] i by simp
  finally show ?thesis by (simp add: previousPosition_def i)
qed

lemma drop_take_one: "Suc k \<le> length xs \<Longrightarrow> drop k (take (Suc k) xs) = [xs ! k]"
  by (simp add: take_Suc_conv_app_nth)

lemma getRange_previous:
  assumes v: "validPos doc cur"
  shows "getRange doc (previousPosition doc cur) cur =
           (if 0 < ch cur then [docLines doc ! line cur ! (ch cur - 1)]
            else if 0 < line cur then [CHR 0x0A] else [])"
proof -
  have vp: "validPos doc (previousPosition doc cur)"
    by (simp add: previousPosition_def validPos_posFromIndex)
  have clip: "clipPos doc (previousPosition doc cur) = previousPosition doc cur"
    "clipPos doc cur = cur"
    by (simp_all add: clipPos_valid v vp)
  from v have c: "ch cur \<le> length (docLines doc ! line cur)" by (simp add: validPos_def)
  have clipq: "clipPos doc q = q" if "previousPosition doc cur = q" for q
    using vp that by (simp add: clipPos_valid)
  show ?thesis
  proof (cases "0 < ch cur")
    case True
    then obtain k where k: "ch cur = Suc k" by (cases "ch cur") auto
    note pq = previous_in_line [OF v k]
    from c k show ?thesis
      by (simp add: getRange_def clip(2) pq clipq [OF pq] getBetween_def drop_take_one)
  next
    case False
    then have z: "ch cur = 0" by simp
    show ?thesis
    proof (cases "line cur")
      case 0
      note pq = previous_at_start [OF v z 0]
      from z 0 show ?thesis
        by (simp add: getRange_def clip(2) pq getBetween_def)
    next
      case (Suc n)
      note pq = previous_line_break [OF v z Suc]
      from z Suc show ?thesis
        by (simp add: getRange_def clip(2) pq clipq [OF pq] getBetween_def upt_rec [of n])
    qed
  qed
qed

text \<open>
  Claim C3, as amended. On a change event the handler opens the suggestion list
  exactly when no completion is active, nothing is selected, the position before the
  cursor is not strictly inside a marker's range, and the character immediately before
  the cursor is \<open>@\<close>.
\<close>

theorem at_sign_opens_hint_unless_guarded:
  assumes "validPos doc (getCursor sel)"
  shows "onChanges c doc sel =
           (\<not> hintActive c \<and> \<not> somethingSelected sel \<and>
            \<not> insideMark doc (previousPosition doc (getCursor sel)) \<and>
            0 < ch (getCursor sel) \<and>
            docLines doc ! line (getCursor sel) ! (ch (getCursor sel) - 1) = CHR ''@'')"
  by (auto simp: onChanges_def Let_def posIsInsideMarkedText_iff getRange_previous [OF assms])

theorem at_sign_opens_hint_unless_guarded_witness:
  "validPos typedDoc (getCursor \<lparr> primary = \<lparr> anchor = \<lparr> line = 0, ch = 12 \<rparr>,
                                              head = \<lparr> line = 0, ch = 12 \<rparr> \<rparr>, others = [] \<rparr>) \<and>
   onChanges typedInput typedDoc \<lparr> primary = \<lparr> anchor = \<lparr> line = 0, ch = 12 \<rparr>,
                                         head = \<lparr> line = 0, ch = 12 \<rparr> \<rparr>, others = [] \<rparr>"
proof -
  let ?sel = "\<lparr> primary = \<lparr> anchor = \<lparr> line = 0, ch = 12 \<rparr>,
                            head = \<lparr> line = 0, ch = 12 \<rparr> \<rparr>, others = [] \<rparr>"
  have v: "validPos typedDoc (getCursor ?sel)" by code_simp
  have "\<not> hintActive typedInput \<and> \<not> somethingSelected ?sel \<and>
        \<not> insideMark typedDoc (previousPosition typedDoc (getCursor ?sel)) \<and>
        0 < ch (getCursor ?sel) \<and>
        docLines typedDoc ! line (getCursor ?sel) ! (ch (getCursor ?sel) - 1) = CHR ''@''"
    by code_simp
  with at_sign_opens_hint_unless_guarded [OF v, of typedInput] v show ?thesis by blast
qed

text \<open>
  Claim C3 as stated fails at change events that a guard stops. In \<open>coAuthorsDoc\<close>
  let the typed \<open>ab\<close> be selected from its end back to its start, so that the anchor
  is at the start of the placeholder and the head right after the \<open>@\<close>, neither of
  them inside a marker (the selection that an undo brings back with the text, when the
  selected \<open>ab\<close> had been deleted): the character before the cursor is \<open>@\<close>, and
  the handler returns without opening the list. It returns likewise, in \<open>typedDoc\<close>
  with nothing selected, while a completion is active.
\<close>

theorem at_sign_guarded_opens_nothing:
  "getCursor \<lparr> primary = \<lparr> anchor = \<lparr> line = 0, ch = 14 \<rparr>, head = \<lparr> line = 0, ch = 12 \<rparr> \<rparr>,
               others = [] \<rparr> = \<lparr> line = 0, ch = 12 \<rparr> \<and>
   getRange coAuthorsDoc (previousPosition coAuthorsDoc \<lparr> line = 0, ch = 12 \<rparr>)
     \<lparr> line = 0, ch = 12 \<rparr> = ''@'' \<and>
   posIsInsideMarkedText coAuthorsDoc \<lparr> line = 0, ch = 14 \<rparr> = False \<and>
   posIsInsideMarkedText coAuthorsDoc \<lparr> line = 0, ch = 12 \<rparr> = False \<and>
   onChanges coAuthorsInput coAuthorsDoc
     \<lparr> primary = \<lparr> anchor = \<lparr> line = 0, ch = 14 \<rparr>, head = \<lparr> line = 0, ch = 12 \<rparr> \<rparr>,
       others = [] \<rparr> = False \<and>
   getRange typedDoc (previousPosition typedDoc \<lparr> line = 0, ch = 12 \<rparr>)
     \<lparr> line = 0, ch = 12 \<rparr> = ''@'' \<and>
   onChanges (onStartCompletion typedInput) typedDoc
     \<lparr> primary = \<lparr> anchor = \<lparr> line = 0, ch = 12 \<rparr>, head = \<lparr> line = 0, ch = 12 \<rparr> \<rparr>,
       others = [] \<rparr> = False"
  by code_simp

text \<open>
  Claim C6. After the cursor-activity handler has run on a component whose label and
  placeholder markers are in the document, the placeholder's \<open>collapsed\<close> property is
  a boolean, true exactly when the end index of the label differs from the start index
  of the placeholder; the handler changes nothing else, and it calls \<open>changed()\<close>
  exactly when the property changed.
\<close>

theorem placeholder_collapsed_iff_separated:
  assumes "label c = Some l" "placeholder c = Some p"
    and "found l = Some labelRange" "found p = Some placeholderRange"
  shows "\<exists>c' signalled p'. onCursorActivity doc c = Inr (c', signalled) \<and>
           label c' = label c \<and> hintActive c' = hintActive c \<and>
           placeholder c' = Some p' \<and> found p' = found p \<and>
           collapsed p' = Some (indexFromPos doc (to_pos labelRange)
                                  \<noteq> indexFromPos doc (from_pos placeholderRange)) \<and>
           signalled = (collapsed p \<noteq> collapsed p')"
  using assms by (auto simp: onCursorActivity_def Let_def)

theorem placeholder_collapsed_iff_separated_witness:
  "(case onCursorActivity typedDoc typedInput of
      Inl e \<Rightarrow> None
    | Inr (c', signalled) \<Rightarrow> map_option collapsed (placeholder c')) = Some (Some True)"
proof -
  let ?l = "\<lparr> found = Some \<lparr> from_pos = \<lparr> line = 0, ch = 0 \<rparr>, to_pos = \<lparr> line = 0, ch = 11 \<rparr> \<rparr>,
              collapsed = None \<rparr>"
  let ?p = "\<lparr> found = Some \<lparr> from_pos = \<lparr> line = 0, ch = 12 \<rparr>, to_pos = \<lparr> line = 0, ch = 21 \<rparr> \<rparr>,
              collapsed = None \<rparr>"
  have l: "label typedInput = Some ?l" and p: "placeholder typedInput = Some ?p"
    by (simp_all add: typedInput_def)
  have fl: "found ?l = Some \<lparr> from_pos = \<lparr> line = 0, ch = 0 \<rparr>, to_pos = \<lparr> line = 0, ch = 11 \<rparr> \<rparr>"
    and fp: "found ?p = Some \<lparr> from_pos = \<lparr> line = 0, ch = 12 \<rparr>, to_pos = \<lparr> line = 0, ch = 21 \<rparr> \<rparr>"
    by simp_all
  have i: "indexFromPos typedDoc \<lparr> line = 0, ch = 11 \<rparr> \<noteq> indexFromPos typedDoc \<lparr> line = 0, ch = 12 \<rparr>"
    by code_simp
  from placeholder_collapsed_iff_separated [OF l p fl fp, of typedDoc] i
  show ?thesis by auto
qed

end
